theory Spec2Isabelle
  imports Complex_Main "HOL-Library.Word"
begin

section \<open>The chunker of \<^verbatim>\<open>src/app/src/lib/chunk.ts\<close>\<close>

text \<open>
  The only computation of the repository is \<^verbatim>\<open>chunkText\<close>, which splits a text into
  overlapping windows. This theory embeds it and settles the properties that the
  specification states about it.

  A JavaScript string is a sequence of UTF-16 code units, and the regular expressions of
  \<^verbatim>\<open>chunkText\<close> carry no \<^verbatim>\<open>u\<close> flag, so they match code units too. A string is therefore
  a list of 16-bit words.

  The numbers \<^verbatim>\<open>size\<close> and \<^verbatim>\<open>overlap\<close> are doubles in the source. The function is
  embedded twice. \<open>chunkText_double\<close> is the function as it is written, on finite doubles
  with the rounding of every sum, difference and quotient. \<open>chunkText\<close> is the same
  function on integers with exact arithmetic: the contract of \<^verbatim>\<open>chunkText\<close> asks for an
  integer size and an integer overlap, and its callers pass \<^verbatim>\<open>1200\<close> and \<^verbatim>\<open>200\<close>. Lemma
  \<open>chunkText_double_int\<close> proves that the two agree on all integer-valued options, for
  every text of at most \<open>2 ^ 53\<close> code units, which every JavaScript string is.
\<close>

subsection \<open>Strings\<close>

type_synonym code_unit = "16 word"
type_synonym js_string = "code_unit list"

text \<open>String literals of the examples, written as Isabelle strings.\<close>

definition js :: "string \<Rightarrow> js_string" where
  "js s = map (\<lambda>c. of_nat (of_char c)) s"

abbreviation TAB :: code_unit where "TAB \<equiv> 0x09"
abbreviation LF :: code_unit where "LF \<equiv> 0x0A"
abbreviation VT :: code_unit where "VT \<equiv> 0x0B"
abbreviation FF :: code_unit where "FF \<equiv> 0x0C"
abbreviation CR :: code_unit where "CR \<equiv> 0x0D"
abbreviation SP :: code_unit where "SP \<equiv> 0x20"
abbreviation NBSP :: code_unit where "NBSP \<equiv> 0xA0"

text \<open>
  What \<^verbatim>\<open>String.prototype.trim\<close> removes: the white space and line terminator code
  points of ECMAScript (TAB, LF, VT, FF, CR, SP, NBSP, U+FEFF, U+2028, U+2029 and the
  space separators of Unicode).
\<close>

definition is_js_whitespace :: "code_unit \<Rightarrow> bool" where
  "is_js_whitespace c \<longleftrightarrow>
     c = TAB \<or> c = LF \<or> c = VT \<or> c = FF \<or> c = CR \<or> c = SP \<or> c = NBSP \<or>
     c = 0x1680 \<or> (0x2000 \<le> c \<and> c \<le> 0x200A) \<or> c = 0x2028 \<or> c = 0x2029 \<or>
     c = 0x202F \<or> c = 0x205F \<or> c = 0x3000 \<or> c = 0xFEFF"

text \<open>\<^verbatim>\<open>s.trim()\<close>\<close>

definition trim_js :: "js_string \<Rightarrow> js_string" where
  "trim_js s = rev (dropWhile is_js_whitespace (rev (dropWhile is_js_whitespace s)))"

text \<open>
  \<^verbatim>\<open>s.slice(start, end)\<close> on integers: a negative index counts from the end of the
  string, and both indices are clamped into \<^verbatim>\<open>0 .. s.length\<close>.
\<close>

definition slice_js :: "js_string \<Rightarrow> int \<Rightarrow> int \<Rightarrow> js_string" where
  "slice_js s start end_idx =
     (let len = int (length s);
          from = (if start < 0 then max (len + start) 0 else min start len);
          to = (if end_idx < 0 then max (len + end_idx) 0 else min end_idx len)
      in take (nat (to - from)) (drop (nat from) s))"

subsection \<open>Normalization\<close>

text \<open>\<^verbatim>\<open>.replace(/\r\n/g, "\n")\<close>: one pass from the left over non-overlapping matches.\<close>

fun replace_crlf :: "js_string \<Rightarrow> js_string" where
  "replace_crlf (c # d # cs) =
     (if c = CR \<and> d = LF then LF # replace_crlf cs else c # replace_crlf (d # cs))"
| "replace_crlf cs = cs"

text \<open>\<^verbatim>\<open>.replace(/\t/g, " ")\<close>\<close>

definition replace_tab :: "js_string \<Rightarrow> js_string" where
  "replace_tab s = map (\<lambda>c. if c = TAB then SP else c) s"

text \<open>\<^verbatim>\<open>.replace(/\u00A0/g, " ")\<close>\<close>

definition replace_nbsp :: "js_string \<Rightarrow> js_string" where
  "replace_nbsp s = map (\<lambda>c. if c = NBSP then SP else c) s"

text \<open>
  \<^verbatim>\<open>.replace(/[ \f\v]+/g, " ")\<close>: each maximal run of spaces, form feeds and vertical tabs
  becomes one space.
\<close>

definition is_space_ff_vt :: "code_unit \<Rightarrow> bool" where
  "is_space_ff_vt c \<longleftrightarrow> c = SP \<or> c = FF \<or> c = VT"

function collapse_spaces :: "js_string \<Rightarrow> js_string" where
  "collapse_spaces [] = []"
| "collapse_spaces (c # cs) =
     (if is_space_ff_vt c then SP # collapse_spaces (dropWhile is_space_ff_vt cs)
      else c # collapse_spaces cs)"
  by pat_completeness auto
termination
  by (relation "measure length") (auto simp: length_dropWhile_le less_Suc_eq_le)

definition normalize :: "js_string \<Rightarrow> js_string" where
  "normalize text = collapse_spaces (replace_nbsp (replace_tab (replace_crlf text)))"

subsection \<open>The windowing loop and \<^verbatim>\<open>chunkText\<close>\<close>

record ChunkOptions =
  opt_size :: "int option"
  opt_overlap :: "int option"

text \<open>The default argument \<^verbatim>\<open>options = {}\<close>.\<close>

definition no_options :: ChunkOptions where
  "no_options = \<lparr>opt_size = None, opt_overlap = None\<rparr>"

text \<open>
  The \<^verbatim>\<open>while\<close> loop, with the array \<^verbatim>\<open>chunks\<close> as an accumulator. Nothing in the loop
  itself makes the cursor advance, so the loop is a partial function: \<open>None\<close> is a run
  that never leaves the loop.
\<close>

partial_function (option) chunk_loop ::
  "js_string \<Rightarrow> int \<Rightarrow> int \<Rightarrow> int \<Rightarrow> js_string list \<Rightarrow> js_string list option" where
  "chunk_loop normalized chunk_size overlap start chunks =
     (if start < int (length normalized) then
        (let end_idx = min (start + chunk_size) (int (length normalized));
             slice = slice_js normalized start end_idx;
             chunks' = chunks @ [trim_js slice]
         in if end_idx = int (length normalized) then Some chunks'
            else chunk_loop normalized chunk_size overlap (max 0 (end_idx - overlap)) chunks')
      else Some chunks)"

text \<open>
  \<^verbatim>\<open>chunkText(text, options)\<close>. The only falsy value of type \<^verbatim>\<open>string\<close> is the empty
  string; \<^verbatim>\<open>filter(Boolean)\<close> keeps the non-empty strings.
\<close>

definition chunkText :: "js_string \<Rightarrow> ChunkOptions \<Rightarrow> js_string list option" where
  "chunkText text options =
     (let chunk_size = (case opt_size options of Some n \<Rightarrow> n | None \<Rightarrow> 1200);
          overlap = (case opt_overlap options of Some n \<Rightarrow> n | None \<Rightarrow> 200)
      in if text = [] then Some []
         else if chunk_size \<le> 0 then Some [text]
         else
           (let overlap = (if overlap < 0 then 0 else overlap);
                overlap = (if overlap \<ge> chunk_size then chunk_size div 4 else overlap);
                normalized = normalize text
            in map_option (filter (\<lambda>c. c \<noteq> []))
                 (chunk_loop normalized chunk_size overlap 0 [])))"

subsection \<open>Doubles\<close>

text \<open>
  A finite double is the rational number it stands for. The binary exponent \<open>e\<close> of
  \<open>x \<noteq> 0\<close> is the integer with \<open>2 powi e \<le> \<bar>x\<bar> < 2 powi (e + 1)\<close>: \<open>exp_up\<close> counts
  the halvings of a number from 1 on until it is below 2, and \<open>exp_down\<close> the doublings
  of a number below 1 until it reaches 1.
\<close>

function exp_up :: "rat \<Rightarrow> int" where
  "exp_up x = (if x < 2 then 0 else exp_up (x / 2) + 1)"
  by pat_completeness auto
termination
proof (relation "measure (\<lambda>x. nat \<lceil>x\<rceil>)")
  fix x :: rat
  assume "\<not> x < 2"
  then have "x / 2 \<le> x - 1" by simp
  then have "\<lceil>x / 2\<rceil> \<le> \<lceil>x\<rceil> - 1" by (metis ceiling_mono ceiling_diff_one)
  moreover have "(0::rat) < of_int \<lceil>x\<rceil>"
    using \<open>\<not> x < 2\<close> le_of_int_ceiling[of x] by linarith
  then have "0 < \<lceil>x\<rceil>" by simp
  ultimately show "(x / 2, x) \<in> measure (\<lambda>x. nat \<lceil>x\<rceil>)" by simp
qed simp

function exp_down :: "rat \<Rightarrow> int" where
  "exp_down x = (if 1 \<le> x \<or> x \<le> 0 then 0 else exp_down (2 * x) - 1)"
  by pat_completeness auto
termination
proof (relation "measure (\<lambda>x. nat \<lceil>1 / x\<rceil>)")
  fix x :: rat
  assume a: "\<not> (1 \<le> x \<or> x \<le> 0)"
  then have x: "0 < x" "x < 1" by auto
  then have y: "1 < 1 / x" by simp
  have h: "1 / (2 * x) = (1 / x) / 2" by simp
  have "\<lceil>(1 / x) / 2\<rceil> < \<lceil>1 / x\<rceil>"
  proof (cases "1 / x \<le> 2")
    case True
    then have "\<lceil>(1 / x) / 2\<rceil> \<le> 1" by (simp add: ceiling_le_iff)
    moreover have "2 \<le> \<lceil>1 / x\<rceil>" using y by (simp add: le_ceiling_iff)
    ultimately show ?thesis by linarith
  next
    case False
    then have "(1 / x) / 2 \<le> 1 / x - 1" by simp
    then have "\<lceil>(1 / x) / 2\<rceil> \<le> \<lceil>1 / x\<rceil> - 1" by (metis ceiling_mono ceiling_diff_one)
    then show ?thesis by simp
  qed
  then have lt: "\<lceil>1 / (2 * x)\<rceil> < \<lceil>1 / x\<rceil>" by (simp only: h)
  have "(0::rat) < of_int \<lceil>1 / x\<rceil>"
    using y le_of_int_ceiling[of "1 / x"] by linarith
  then have pos: "0 < \<lceil>1 / x\<rceil>" by simp
  show "(2 * x, x) \<in> measure (\<lambda>x. nat \<lceil>1 / x\<rceil>)"
    unfolding in_measure zless_nat_conj using lt pos by blast
qed simp

declare exp_up.simps [simp del] exp_down.simps [simp del]

definition binary_exponent :: "rat \<Rightarrow> int" where
  "binary_exponent x = (if 1 \<le> \<bar>x\<bar> then exp_up \<bar>x\<bar> else exp_down \<bar>x\<bar>)"

text \<open>
  The results of \<^verbatim>\<open>+\<close>, \<^verbatim>\<open>-\<close> and \<^verbatim>\<open>/\<close> are rounded to the nearest double, ties to
  the even significand (IEEE 754 binary64): 53 significant bits, and no bit below
  \<open>2 powi - 1074\<close>. Overflow to an infinity is not modelled, and does not occur on finite
  options: a sum adds a cursor of at most the length of the text to the size, a
  difference takes the overlap from a window end of at most that length, and the
  quotient divides the size by 4.
\<close>

definition round_half_even :: "rat \<Rightarrow> int" where
  "round_half_even y =
     (let f = \<lfloor>y\<rfloor>; d = y - of_int f
      in if d < 1 / 2 then f else if 1 / 2 < d then f + 1 else if even f then f else f + 1)"

definition round_double :: "rat \<Rightarrow> rat" where
  "round_double x =
     (if x = 0 then 0
      else (let k = max (binary_exponent x - 52) (- 1074)
            in of_int (round_half_even (x / 2 powi k)) * 2 powi k))"

text \<open>
  \<^verbatim>\<open>slice\<close> takes the integer part of an index (\<^verbatim>\<open>ToIntegerOrInfinity\<close>: truncation
  towards zero).
\<close>

definition to_integer :: "rat \<Rightarrow> int" where
  "to_integer x = (if x < 0 then - \<lfloor>- x\<rfloor> else \<lfloor>x\<rfloor>)"

subsection \<open>\<^verbatim>\<open>chunkText\<close> on doubles\<close>

text \<open>The options, the loop and the function as the source has them, on doubles.\<close>

record ChunkOptions_double =
  dbl_size :: "rat option"
  dbl_overlap :: "rat option"

partial_function (option) chunk_loop_double ::
  "js_string \<Rightarrow> rat \<Rightarrow> rat \<Rightarrow> rat \<Rightarrow> js_string list \<Rightarrow> js_string list option" where
  "chunk_loop_double normalized chunk_size overlap start chunks =
     (if start < of_nat (length normalized) then
        (let end_idx = min (round_double (start + chunk_size)) (of_nat (length normalized));
             slice = slice_js normalized (to_integer start) (to_integer end_idx);
             chunks' = chunks @ [trim_js slice]
         in if end_idx = of_nat (length normalized) then Some chunks'
            else chunk_loop_double normalized chunk_size overlap
                   (max 0 (round_double (end_idx - overlap))) chunks')
      else Some chunks)"

definition chunkText_double :: "js_string \<Rightarrow> ChunkOptions_double \<Rightarrow> js_string list option" where
  "chunkText_double text options =
     (let chunk_size = (case dbl_size options of Some n \<Rightarrow> n | None \<Rightarrow> 1200);
          overlap = (case dbl_overlap options of Some n \<Rightarrow> n | None \<Rightarrow> 200)
      in if text = [] then Some []
         else if chunk_size \<le> 0 then Some [text]
         else
           (let overlap = (if overlap < 0 then 0 else overlap);
                overlap = (if overlap \<ge> chunk_size
                           then of_int \<lfloor>round_double (chunk_size / 4)\<rfloor> else overlap);
                normalized = normalize text
            in map_option (filter (\<lambda>c. c \<noteq> []))
                 (chunk_loop_double normalized chunk_size overlap 0 [])))"

text \<open>
  Integer options as doubles, the options that are integer-valued doubles, and the size
  after the default.
\<close>

definition double_options :: "ChunkOptions \<Rightarrow> ChunkOptions_double" where
  "double_options options =
     \<lparr>dbl_size = map_option of_int (opt_size options),
      dbl_overlap = map_option of_int (opt_overlap options)\<rparr>"

definition integer_double :: "rat \<Rightarrow> bool" where
  "integer_double x \<longleftrightarrow> x = of_int \<lfloor>x\<rfloor> \<and> round_double x = x"

definition integer_options :: "ChunkOptions_double \<Rightarrow> bool" where
  "integer_options options \<longleftrightarrow>
     (case dbl_size options of None \<Rightarrow> True | Some x \<Rightarrow> integer_double x) \<and>
     (case dbl_overlap options of None \<Rightarrow> True | Some x \<Rightarrow> integer_double x)"

definition double_size :: "ChunkOptions_double \<Rightarrow> rat" where
  "double_size options = (case dbl_size options of Some n \<Rightarrow> n | None \<Rightarrow> 1200)"

text \<open>The overlap after the default and the two clamps.\<close>

definition double_overlap :: "ChunkOptions_double \<Rightarrow> rat" where
  "double_overlap options =
     (let overlap = (case dbl_overlap options of Some n \<Rightarrow> n | None \<Rightarrow> 200);
          overlap = (if overlap < 0 then 0 else overlap)
      in if overlap \<ge> double_size options
         then of_int \<lfloor>round_double (double_size options / 4)\<rfloor> else overlap)"

subsection \<open>The windows of the specification\<close>

text \<open>The size after the default, and the overlap after the default and the two clamps.\<close>

definition effective_size :: "ChunkOptions \<Rightarrow> int" where
  "effective_size options = (case opt_size options of Some n \<Rightarrow> n | None \<Rightarrow> 1200)"

definition clamp_overlap :: "int \<Rightarrow> int \<Rightarrow> int" where
  "clamp_overlap chunk_size overlap =
     (let overlap = (if overlap < 0 then 0 else overlap)
      in if overlap \<ge> chunk_size then chunk_size div 4 else overlap)"

definition effective_overlap :: "ChunkOptions \<Rightarrow> int" where
  "effective_overlap options =
     clamp_overlap (effective_size options)
       (case opt_overlap options of Some n \<Rightarrow> n | None \<Rightarrow> 200)"

text \<open>
  The windowing algorithm in the words of the specification: a cursor \<open>start\<close> over a
  text of length \<open>L\<close>; while \<open>start < L\<close>, the window ends at
  \<open>min (start + size) L\<close>; the window that ends at \<open>L\<close> is the last one, and otherwise
  the cursor moves to \<open>max 0 (end - overlap)\<close>. The specification relies on
  \<open>overlap < size\<close> for progress, which is the guard that makes this function total.
\<close>

function spec_windows :: "int \<Rightarrow> int \<Rightarrow> int \<Rightarrow> int \<Rightarrow> (int \<times> int) list" where
  "spec_windows L chunk_size overlap start =
     (if start < L \<and> overlap < chunk_size then
        (let end_idx = min (start + chunk_size) L
         in if end_idx = L then [(start, end_idx)]
            else (start, end_idx) # spec_windows L chunk_size overlap (max 0 (end_idx - overlap)))
      else [])"
  by pat_completeness auto
termination
  by (relation "measure (\<lambda>(L, chunk_size, overlap, start). nat (L - start))") auto

declare spec_windows.simps [simp del]

text \<open>
  The slice of a window, what the window emits, and the output of the specification: the
  emitted chunks that are not empty.
\<close>

definition window_slice :: "js_string \<Rightarrow> int \<times> int \<Rightarrow> js_string" where
  "window_slice normalized w = slice_js normalized (fst w) (snd w)"

definition window_chunk :: "js_string \<Rightarrow> int \<times> int \<Rightarrow> js_string" where
  "window_chunk normalized w = trim_js (window_slice normalized w)"

definition spec_chunks :: "js_string \<Rightarrow> int \<Rightarrow> int \<Rightarrow> js_string list" where
  "spec_chunks normalized chunk_size overlap =
     filter (\<lambda>c. c \<noteq> [])
       (map (window_chunk normalized)
          (spec_windows (int (length normalized)) chunk_size overlap 0))"

text \<open>Each window starts \<open>overlap\<close> before the end of the one before it, and not before 0.\<close>

fun advances :: "int \<Rightarrow> (int \<times> int) list \<Rightarrow> bool" where
  "advances overlap (w # v # ws) \<longleftrightarrow> fst v = max 0 (snd w - overlap) \<and> advances overlap (v # ws)"
| "advances overlap ws \<longleftrightarrow> True"


subsection \<open>Normalized texts\<close>

text \<open>
  What normalization establishes: no tab, no non-breaking space, no form feed, no vertical
  tab, and no two spaces in a row.
\<close>

fun no_double_space :: "js_string \<Rightarrow> bool" where
  "no_double_space (c # d # cs) \<longleftrightarrow> \<not> (c = SP \<and> d = SP) \<and> no_double_space (d # cs)"
| "no_double_space cs \<longleftrightarrow> True"

definition normal_form :: "js_string \<Rightarrow> bool" where
  "normal_form s \<longleftrightarrow>
     TAB \<notin> set s \<and> NBSP \<notin> set s \<and> FF \<notin> set s \<and> VT \<notin> set s \<and> no_double_space s"

text \<open>The text holds a CR that is followed by a LF.\<close>

fun has_crlf :: "js_string \<Rightarrow> bool" where
  "has_crlf (c # d # cs) \<longleftrightarrow> (c = CR \<and> d = LF) \<or> has_crlf (d # cs)"
| "has_crlf cs \<longleftrightarrow> False"

section \<open>The loop computes the windows\<close>

lemmas chunk_eval =
  chunkText_def chunk_loop.simps normalize_def js_def replace_tab_def replace_nbsp_def
  is_space_ff_vt_def slice_js_def trim_js_def is_js_whitespace_def Let_def
  effective_size_def effective_overlap_def clamp_overlap_def spec_chunks_def window_chunk_def
  window_slice_def spec_windows.simps

lemma clamp_overlap_bounds:
  "0 < chunk_size \<Longrightarrow>
     0 \<le> clamp_overlap chunk_size overlap \<and> clamp_overlap chunk_size overlap < chunk_size"
  by (auto simp: clamp_overlap_def Let_def)

lemma chunk_loop_windows:
  "overlap < chunk_size \<Longrightarrow>
   chunk_loop normalized chunk_size overlap start chunks =
     Some (chunks @ map (window_chunk normalized)
             (spec_windows (int (length normalized)) chunk_size overlap start))"
proof (induction "int (length normalized)" chunk_size overlap start arbitrary: chunks
       rule: spec_windows.induct)
  case (1 chunk_size overlap start)
  show ?case
  proof (cases "start < int (length normalized)")
    case False
    then show ?thesis by (subst chunk_loop.simps, subst spec_windows.simps) simp
  next
    case True
    note lt = this
    show ?thesis
    proof (cases "min (start + chunk_size) (int (length normalized)) = int (length normalized)")
      case True
      with lt "1.prems" show ?thesis
        by (subst chunk_loop.simps, subst spec_windows.simps) (simp add: window_chunk_def window_slice_def Let_def)
    next
      case False
      with lt "1.prems" "1.hyps"[OF _ refl False "1.prems"] show ?thesis
        by (subst chunk_loop.simps, subst spec_windows.simps) (simp add: window_chunk_def window_slice_def Let_def)
    qed
  qed
qed

lemma chunkText_spec_chunks:
  assumes "text \<noteq> []" and "0 < effective_size options"
  shows "chunkText text options =
           Some (spec_chunks (normalize text) (effective_size options) (effective_overlap options))"
proof -
  have lt: "effective_overlap options < effective_size options"
    using clamp_overlap_bounds[OF assms(2)] by (simp add: effective_overlap_def)
  have "chunkText text options =
          map_option (filter (\<lambda>c. c \<noteq> []))
            (chunk_loop (normalize text) (effective_size options) (effective_overlap options) 0 [])"
    using assms
    by (simp add: chunkText_def effective_size_def effective_overlap_def clamp_overlap_def Let_def)
  then show ?thesis
    by (simp add: chunk_loop_windows[OF lt] spec_chunks_def)
qed

lemma length_trim_js: "length (trim_js s) \<le> length s"
proof -
  have "length (trim_js s) \<le> length (dropWhile is_js_whitespace s)"
    unfolding trim_js_def using length_dropWhile_le[of is_js_whitespace "rev (dropWhile is_js_whitespace s)"]
    by simp
  also have "\<dots> \<le> length s" by (rule length_dropWhile_le)
  finally show ?thesis .
qed

lemma length_slice_js:
  "0 \<le> start \<Longrightarrow> start \<le> end_idx \<Longrightarrow> int (length (slice_js s start end_idx)) \<le> end_idx - start"
  by (auto simp: slice_js_def Let_def min_def)

lemma spec_windows_step:
  "start < L \<Longrightarrow> overlap < chunk_size \<Longrightarrow>
     spec_windows L chunk_size overlap start =
       (start, min (start + chunk_size) L) #
       (if min (start + chunk_size) L = L then []
        else spec_windows L chunk_size overlap (max 0 (min (start + chunk_size) L - overlap)))"
  by (subst spec_windows.simps) (simp add: Let_def)

lemma spec_windows_stop:
  "\<not> (start < L \<and> overlap < chunk_size) \<Longrightarrow> spec_windows L chunk_size overlap start = []"
  by (subst spec_windows.simps) auto

lemma spec_windows_member:
  "w \<in> set (spec_windows L chunk_size overlap start) \<Longrightarrow> 0 \<le> start \<Longrightarrow> 0 < chunk_size \<Longrightarrow>
     start \<le> fst w \<and> fst w < snd w \<and> snd w = min (fst w + chunk_size) L"
proof (induction L chunk_size overlap start rule: spec_windows.induct)
  case (1 L chunk_size overlap start)
  have guard: "start < L \<and> overlap < chunk_size"
    using "1.prems"(1) spec_windows_stop[of start L overlap chunk_size] by fastforce
  define e where "e = min (start + chunk_size) L"
  have step: "spec_windows L chunk_size overlap start =
       (start, e) # (if e = L then [] else spec_windows L chunk_size overlap (max 0 (e - overlap)))"
    unfolding e_def using guard by (simp add: spec_windows_step)
  show ?case
  proof (cases "w = (start, e)")
    case True
    with guard "1.prems" show ?thesis by (auto simp: e_def)
  next
    case False
    with "1.prems"(1) step have ne: "e \<noteq> L"
      and mem: "w \<in> set (spec_windows L chunk_size overlap (max 0 (e - overlap)))"
      by (auto split: if_splits)
    have "max 0 (e - overlap) \<le> fst w \<and> fst w < snd w \<and> snd w = min (fst w + chunk_size) L"
      by (rule "1.IH"[OF guard e_def ne mem _ "1.prems"(3)]) simp
    moreover have "start \<le> max 0 (e - overlap)"
      using guard ne by (auto simp: e_def min_def max_def)
    ultimately show ?thesis using order_trans by blast
  qed
qed

lemma spec_windows_last:
  "start < L \<Longrightarrow> overlap < chunk_size \<Longrightarrow> 0 \<le> overlap \<Longrightarrow> 0 \<le> start \<Longrightarrow>
     spec_windows L chunk_size overlap start \<noteq> [] \<and>
     fst (hd (spec_windows L chunk_size overlap start)) = start \<and>
     snd (last (spec_windows L chunk_size overlap start)) = L"
proof (induction L chunk_size overlap start rule: spec_windows.induct)
  case (1 L chunk_size overlap start)
  define e where "e = min (start + chunk_size) L"
  have step: "spec_windows L chunk_size overlap start =
       (start, e) # (if e = L then [] else spec_windows L chunk_size overlap (max 0 (e - overlap)))"
    unfolding e_def using "1.prems" by (simp add: spec_windows_step)
  show ?case
  proof (cases "e = L")
    case True
    with step show ?thesis by simp
  next
    case False
    have lt: "max 0 (e - overlap) < L"
      using False "1.prems" by (auto simp: e_def min_def max_def)
    have guard: "start < L \<and> overlap < chunk_size" using "1.prems" by simp
    have "spec_windows L chunk_size overlap (max 0 (e - overlap)) \<noteq> [] \<and>
          fst (hd (spec_windows L chunk_size overlap (max 0 (e - overlap)))) = max 0 (e - overlap) \<and>
          snd (last (spec_windows L chunk_size overlap (max 0 (e - overlap)))) = L"
      by (rule "1.IH"[OF guard e_def False lt "1.prems"(2,3)]) simp
    with step False show ?thesis by simp
  qed
qed

lemma spec_chunks_member:
  assumes "c \<in> set (spec_chunks normalized chunk_size overlap)"
  obtains w where "w \<in> set (spec_windows (int (length normalized)) chunk_size overlap 0)"
    and "c = window_chunk normalized w" and "c \<noteq> []"
  using assms by (auto simp: spec_chunks_def)

lemma advances_Cons:
  "advances overlap (w # ws) \<longleftrightarrow>
     (ws = [] \<or> fst (hd ws) = max 0 (snd w - overlap)) \<and> advances overlap ws"
  by (cases ws) auto

lemma spec_windows_advances:
  "0 \<le> start \<Longrightarrow> 0 \<le> overlap \<Longrightarrow> overlap < chunk_size \<Longrightarrow>
     advances overlap (spec_windows L chunk_size overlap start)"
proof (induction L chunk_size overlap start rule: spec_windows.induct)
  case (1 L chunk_size overlap start)
  show ?case
  proof (cases "start < L")
    case False
    then show ?thesis by (simp add: spec_windows_stop)
  next
    case True
    define e where "e = min (start + chunk_size) L"
    have guard: "start < L \<and> overlap < chunk_size" using True "1.prems" by simp
    have step: "spec_windows L chunk_size overlap start =
       (start, e) # (if e = L then [] else spec_windows L chunk_size overlap (max 0 (e - overlap)))"
      unfolding e_def using guard by (simp add: spec_windows_step)
    show ?thesis
    proof (cases "e = L")
      case True
      with step show ?thesis by simp
    next
      case False
      have lt: "max 0 (e - overlap) < L"
        using False guard "1.prems" by (auto simp: e_def min_def max_def split: if_splits)
      have "advances overlap (spec_windows L chunk_size overlap (max 0 (e - overlap)))"
        by (rule "1.IH"[OF guard e_def False _ "1.prems"(2,3)]) simp
      moreover have "fst (hd (spec_windows L chunk_size overlap (max 0 (e - overlap)))) = max 0 (e - overlap)"
        using spec_windows_last[OF lt "1.prems"(3,2)] by simp
      ultimately show ?thesis
        using step False by (simp add: advances_Cons)
    qed
  qed
qed

lemma spec_windows_ends:
  assumes "w \<in> set (spec_windows L chunk_size overlap start)" "0 \<le> start" "0 < chunk_size"
  shows "snd w = min (fst w + chunk_size) L"
  using spec_windows_member[OF assms] by simp





lemma trim_js_Nil [simp]: "trim_js [] = []"
  by (simp add: trim_js_def)

lemma dropWhile_hd_id: "xs \<noteq> [] \<Longrightarrow> \<not> P (hd xs) \<Longrightarrow> dropWhile P xs = xs"
  by (cases xs) auto

lemma trim_js_fixed:
  assumes "s \<noteq> []" "\<not> is_js_whitespace (hd s)" "\<not> is_js_whitespace (last s)"
  shows "trim_js s = s"
proof -
  have 1: "dropWhile is_js_whitespace s = s"
    using assms by (simp add: dropWhile_hd_id)
  have "rev s \<noteq> []" "hd (rev s) = last s"
    using assms by (simp_all add: hd_rev)
  then have 2: "dropWhile is_js_whitespace (rev s) = rev s"
    using assms by (intro dropWhile_hd_id) simp_all
  show ?thesis by (simp add: trim_js_def 1 2)
qed

lemma trim_js_ends:
  assumes "trim_js s \<noteq> []"
  shows "\<not> is_js_whitespace (hd (trim_js s)) \<and> \<not> is_js_whitespace (last (trim_js s))"
proof -
  define y where "y = dropWhile is_js_whitespace s"
  define z where "z = dropWhile is_js_whitespace (rev y)"
  have t: "trim_js s = rev z" by (simp add: trim_js_def y_def z_def)
  with assms have z: "z \<noteq> []" by simp
  then have hz: "\<not> is_js_whitespace (hd z)"
    unfolding z_def by (metis hd_dropWhile)
  from z have y: "y \<noteq> []" unfolding z_def by auto
  then have hy: "\<not> is_js_whitespace (hd y)"
    unfolding y_def by (metis hd_dropWhile)
  obtain p where p: "rev y = p @ z"
    unfolding z_def by (metis takeWhile_dropWhile_id)
  with z have "last z = last (rev y)" by simp
  also have "\<dots> = hd y" using y by (simp add: last_rev)
  finally have lz: "\<not> is_js_whitespace (last z)" using hy by simp
  show ?thesis using t z hz lz by (simp add: hd_rev last_rev)
qed


lemma trim_js_decomp: "\<exists>a b. s = a @ trim_js s @ b"
proof -
  define y where "y = dropWhile is_js_whitespace s"
  define z where "z = dropWhile is_js_whitespace (rev y)"
  have t: "trim_js s = rev z" by (simp add: trim_js_def y_def z_def)
  have "rev y = takeWhile is_js_whitespace (rev y) @ z"
    unfolding z_def by simp
  then have "y = rev z @ rev (takeWhile is_js_whitespace (rev y))"
    by (metis rev_append rev_rev_ident)
  moreover have "s = takeWhile is_js_whitespace s @ y"
    unfolding y_def by simp
  ultimately have "s = takeWhile is_js_whitespace s @ trim_js s @ rev (takeWhile is_js_whitespace (rev y))"
    using t by simp
  then show ?thesis by blast
qed

lemma replace_crlf_nonempty: "s \<noteq> [] \<Longrightarrow> replace_crlf s \<noteq> []"
  by (induction s rule: replace_crlf.induct) auto

lemma collapse_spaces_nonempty: "s \<noteq> [] \<Longrightarrow> collapse_spaces s \<noteq> []"
  by (cases s) auto

lemma normalize_nonempty: "text \<noteq> [] \<Longrightarrow> normalize text \<noteq> []"
  by (simp add: normalize_def collapse_spaces_nonempty replace_nbsp_def replace_tab_def
      replace_crlf_nonempty)

text \<open>
  The loop alone does not always terminate: with an overlap equal to the size the cursor
  stays where it is, and the loop never returns. The clamps of \<^verbatim>\<open>chunkText\<close> are what
  rules this out.
\<close>

lemma chunk_loop_no_progress_aux:
  assumes "chunk_loop normalized chunk_size overlap start chunks = Some result"
  shows "\<not> (overlap = chunk_size \<and> 0 \<le> start \<and> start < int (length normalized)
            \<and> start + chunk_size < int (length normalized))"
  using assms
proof (induction rule: chunk_loop.raw_induct[rotated 1, consumes 1, case_names step])
  case (step loop normalized chunk_size overlap start chunks result)
  show ?case
  proof
    assume a: "overlap = chunk_size \<and> 0 \<le> start \<and> start < int (length normalized)
            \<and> start + chunk_size < int (length normalized)"
    with step.hyps have "loop normalized chunk_size overlap start
        (chunks @ [trim_js (slice_js normalized start (start + chunk_size))]) = Some result"
      by (simp add: Let_def min_def max_def split: if_splits)
    from step.IH[OF this] a show False by simp
  qed
qed

lemma chunk_loop_no_progress:
  "0 \<le> start \<Longrightarrow> start < int (length normalized) \<Longrightarrow>
   start + chunk_size < int (length normalized) \<Longrightarrow>
     chunk_loop normalized chunk_size chunk_size start chunks = None"
  using chunk_loop_no_progress_aux[of normalized chunk_size chunk_size start chunks]
  by (cases "chunk_loop normalized chunk_size chunk_size start chunks") auto

section \<open>Trimming and normalization\<close>

lemma no_double_space_Cons:
  "no_double_space (c # cs) \<longleftrightarrow> (cs = [] \<or> \<not> (c = SP \<and> hd cs = SP)) \<and> no_double_space cs"
  by (cases cs) auto

lemma no_double_space_append:
  "no_double_space (xs @ ys) \<Longrightarrow> no_double_space xs \<and> no_double_space ys"
proof (induction xs rule: no_double_space.induct)
  case (1 c d cs)
  then show ?case by simp
qed (auto simp: no_double_space_Cons)

lemma normal_form_append:
  "normal_form (xs @ ys) \<Longrightarrow> normal_form xs \<and> normal_form ys"
  using no_double_space_append[of xs ys] by (auto simp: normal_form_def)

lemma normal_form_take_drop: "normal_form s \<Longrightarrow> normal_form (take n (drop m s))"
proof -
  assume a: "normal_form s"
  have "take m s @ (take n (drop m s) @ drop n (drop m s)) = s"
    by (simp only: append_take_drop_id)
  with a normal_form_append show ?thesis by metis
qed

lemma slice_js_take_drop_ex: "\<exists>n m. slice_js s i j = take n (drop m s)"
  unfolding slice_js_def Let_def by blast

lemma normal_form_slice_js: "normal_form s \<Longrightarrow> normal_form (slice_js s i j)"
  using slice_js_take_drop_ex[of s i j] normal_form_take_drop by metis

lemma normal_form_trim_js: "normal_form s \<Longrightarrow> normal_form (trim_js s)"
  using trim_js_decomp[of s] normal_form_append by metis

lemma set_collapse_spaces: "set (collapse_spaces s) \<subseteq> insert SP (set s)"
proof (induction s rule: collapse_spaces.induct)
  case 1
  then show ?case by simp
next
  case (2 c cs)
  have "set (dropWhile is_space_ff_vt cs) \<subseteq> set cs" by (auto dest: set_dropWhileD)
  with 2 show ?case by auto
qed

lemma collapse_spaces_no_ff_vt: "FF \<notin> set (collapse_spaces s) \<and> VT \<notin> set (collapse_spaces s)"
proof (induction s rule: collapse_spaces.induct)
  case 1
  then show ?case by simp
next
  case (2 c cs)
  then show ?case by (auto simp: is_space_ff_vt_def)
qed

lemma hd_collapse_spaces:
  "s \<noteq> [] \<Longrightarrow> hd (collapse_spaces s) = (if is_space_ff_vt (hd s) then SP else hd s)"
  by (cases s) auto

lemma collapse_spaces_no_double: "no_double_space (collapse_spaces s)"
proof (induction s rule: collapse_spaces.induct)
  case 1
  then show ?case by simp
next
  case (2 c cs)
  show ?case
  proof (cases "is_space_ff_vt c")
    case True
    let ?r = "dropWhile is_space_ff_vt cs"
    have "collapse_spaces ?r = [] \<or> hd (collapse_spaces ?r) \<noteq> SP"
    proof (cases "?r = []")
      case False
      then have "\<not> is_space_ff_vt (hd ?r)" by (metis hd_dropWhile)
      with False show ?thesis
        by (simp add: hd_collapse_spaces is_space_ff_vt_def del: dropWhile_eq_Nil_conv)
    next
      case True
      then show ?thesis by (simp only: collapse_spaces.simps simp_thms)
    qed
    moreover have "no_double_space (collapse_spaces ?r)"
      using True 2(1) by simp
    moreover have "collapse_spaces (c # cs) = SP # collapse_spaces ?r"
      using True by simp
    ultimately show ?thesis
      by (simp only: no_double_space_Cons) blast
  next
    case False
    then have c: "c \<noteq> SP" by (simp add: is_space_ff_vt_def)
    have "no_double_space (collapse_spaces cs)"
      using False 2(2) by simp
    moreover have "collapse_spaces (c # cs) = c # collapse_spaces cs"
      using False by simp
    ultimately show ?thesis
      using c by (simp only: no_double_space_Cons) blast
  qed
qed

lemma normalize_normal_form: "normal_form (normalize text)"
proof -
  let ?a = "replace_tab (replace_crlf text)"
  have 1: "TAB \<notin> set ?a" by (auto simp: replace_tab_def)
  have 2: "TAB \<notin> set (replace_nbsp ?a) \<and> NBSP \<notin> set (replace_nbsp ?a)"
    using 1 by (auto simp: replace_nbsp_def)
  have "TAB \<notin> set (normalize text) \<and> NBSP \<notin> set (normalize text)"
    using 2 set_collapse_spaces[of "replace_nbsp ?a"] unfolding normalize_def by auto
  then show ?thesis
    unfolding normal_form_def
    using collapse_spaces_no_ff_vt[of "replace_nbsp ?a"] collapse_spaces_no_double[of "replace_nbsp ?a"]
    by (simp add: normalize_def)
qed

lemma collapse_spaces_normal_form: "normal_form s \<Longrightarrow> collapse_spaces s = s"
proof (induction s rule: collapse_spaces.induct)
  case 1
  then show ?case by simp
next
  case (2 c cs)
  have nf: "normal_form cs" using 2(3) normal_form_append[of "[c]" cs] by simp
  show ?case
  proof (cases "is_space_ff_vt c")
    case True
    with 2(3) have c: "c = SP" by (auto simp: normal_form_def is_space_ff_vt_def)
    have "dropWhile is_space_ff_vt cs = cs"
    proof (cases cs)
      case (Cons d ds)
      with 2(3) c have "\<not> is_space_ff_vt d"
        by (auto simp: normal_form_def is_space_ff_vt_def)
      with Cons show ?thesis by simp
    qed simp
    with True c 2(1) nf show ?thesis by simp
  next
    case False
    with 2(2) nf show ?thesis by simp
  qed
qed

lemma replace_maps_normal_form:
  "normal_form s \<Longrightarrow> replace_nbsp (replace_tab s) = s"
  unfolding replace_nbsp_def replace_tab_def normal_form_def
  by (auto intro!: map_idI)

lemma normalize_normal_form_eq: "normal_form (replace_crlf s) \<Longrightarrow> normalize s = replace_crlf s"
  by (simp add: normalize_def replace_maps_normal_form collapse_spaces_normal_form)

lemma set_replace_crlf: "set (replace_crlf s) \<subseteq> set s"
  by (induction s rule: replace_crlf.induct) auto

lemma hd_replace_crlf_space: "hd (replace_crlf (d # cs)) = SP \<longleftrightarrow> d = SP"
  by (cases cs) auto

lemma replace_crlf_no_double: "no_double_space s \<Longrightarrow> no_double_space (replace_crlf s)"
proof (induction s rule: replace_crlf.induct)
  case (1 c d cs)
  show ?case
  proof (cases "c = CR \<and> d = LF")
    case True
    with 1 show ?thesis by (auto simp: no_double_space_Cons)
  next
    case False
    have "replace_crlf (d # cs) \<noteq> []" by (cases cs) auto
    with False 1 show ?thesis
      using hd_replace_crlf_space[of d cs] by (auto simp: no_double_space_Cons)
  qed
qed simp_all

lemma replace_crlf_normal_form: "normal_form s \<Longrightarrow> normal_form (replace_crlf s)"
  using set_replace_crlf[of s] by (auto simp: normal_form_def replace_crlf_no_double)

lemma length_replace_crlf: "length (replace_crlf s) \<le> length s"
  by (induction s rule: replace_crlf.induct) auto

lemma hd_replace_crlf: "s \<noteq> [] \<Longrightarrow> hd s \<noteq> CR \<Longrightarrow> hd (replace_crlf s) = hd s"
  by (induction s rule: replace_crlf.induct) auto

lemma last_replace_crlf: "s \<noteq> [] \<Longrightarrow> last (replace_crlf s) = last s"
proof (induction s rule: replace_crlf.induct)
  case (1 c d cs)
  have ne: "replace_crlf (d # cs) \<noteq> []" by (cases cs) auto
  show ?case
  proof (cases cs)
    case Nil
    then show ?thesis by simp
  next
    case (Cons e es)
    then have "replace_crlf cs \<noteq> []" by (simp add: replace_crlf_nonempty)
    with 1 ne Cons show ?thesis by auto
  qed
qed simp_all

lemma replace_crlf_no_crlf: "\<not> has_crlf s \<Longrightarrow> replace_crlf s = s"
  by (induction s rule: replace_crlf.induct) auto

lemma filter_dropWhile_disjoint:
  "(\<And>x. Q x \<Longrightarrow> \<not> P x) \<Longrightarrow> filter P (dropWhile Q xs) = filter P xs"
  by (induction xs) auto

lemma filter_lf_collapse_spaces:
  "filter (\<lambda>c. c = LF) (collapse_spaces s) = filter (\<lambda>c. c = LF) s"
proof (induction s rule: collapse_spaces.induct)
  case 1
  then show ?case by simp
next
  case (2 c cs)
  have "filter (\<lambda>c. c = LF) (dropWhile is_space_ff_vt cs) = filter (\<lambda>c. c = LF) cs"
    by (rule filter_dropWhile_disjoint) (auto simp: is_space_ff_vt_def)
  with 2 show ?case by (auto simp: is_space_ff_vt_def)
qed

lemma filter_lf_replace_crlf:
  "filter (\<lambda>c. c = LF) (replace_crlf s) = filter (\<lambda>c. c = LF) s"
  by (induction s rule: replace_crlf.induct) auto

lemma filter_lf_replace_tab:
  "filter (\<lambda>c. c = LF) (replace_tab s) = filter (\<lambda>c. c = LF) s"
  unfolding replace_tab_def by (induction s) auto

lemma filter_lf_replace_nbsp:
  "filter (\<lambda>c. c = LF) (replace_nbsp s) = filter (\<lambda>c. c = LF) s"
  unfolding replace_nbsp_def by (induction s) auto

lemma filter_lf_normalize:
  "filter (\<lambda>c. c = LF) (normalize text) = filter (\<lambda>c. c = LF) text"
  by (simp add: normalize_def filter_lf_collapse_spaces filter_lf_replace_nbsp
      filter_lf_replace_tab filter_lf_replace_crlf)

lemma spec_chunks_length:
  assumes "c \<in> set (spec_chunks normalized chunk_size overlap)" and "0 < chunk_size"
  shows "int (length c) \<le> chunk_size"
proof -
  from assms(1) obtain w where w: "w \<in> set (spec_windows (int (length normalized)) chunk_size overlap 0)"
    and c: "c = window_chunk normalized w"
    by (rule spec_chunks_member)
  from spec_windows_member[OF w _ assms(2)]
  have b: "0 \<le> fst w" "fst w < snd w" "snd w \<le> fst w + chunk_size"
    by auto
  have "int (length c) \<le> int (length (slice_js normalized (fst w) (snd w)))"
    unfolding c window_chunk_def window_slice_def using length_trim_js by simp
  also have "\<dots> \<le> snd w - fst w"
    using b by (intro length_slice_js) auto
  also have "\<dots> \<le> chunk_size" using b by simp
  finally show ?thesis .
qed

lemma spec_chunks_single:
  assumes "s \<noteq> []" and "int (length s) \<le> chunk_size" and "overlap < chunk_size"
    and "trim_js s = s"
  shows "spec_chunks s chunk_size overlap = [s]"
proof -
  have L: "0 < int (length s)" using assms(1) by simp
  have "spec_windows (int (length s)) chunk_size overlap 0 = [(0, int (length s))]"
    using L assms(2,3) by (simp add: spec_windows_step min_def)
  moreover have "slice_js s 0 (int (length s)) = s"
    by (simp add: slice_js_def)
  ultimately show ?thesis
    using assms(1,4) by (simp add: spec_chunks_def window_chunk_def window_slice_def)
qed

lemma rechunk_windowing:
  assumes c: "c \<in> set (spec_chunks (normalize text) (effective_size options) (effective_overlap options))"
    and pos: "0 < effective_size options"
  shows "chunkText c options = Some [replace_crlf c]"
proof -
  from c obtain w where cw: "c = window_chunk (normalize text) w" and ne: "c \<noteq> []"
    by (rule spec_chunks_member)
  have nf: "normal_form c"
    unfolding cw window_chunk_def window_slice_def
    by (intro normal_form_trim_js normal_form_slice_js normalize_normal_form)
  have ends: "\<not> is_js_whitespace (hd c)" "\<not> is_js_whitespace (last c)"
    using trim_js_ends[of "window_slice (normalize text) w"] ne
    unfolding cw window_chunk_def by simp_all
  let ?c' = "replace_crlf c"
  have ne': "?c' \<noteq> []" using ne by (rule replace_crlf_nonempty)
  have "hd c \<noteq> CR" using ends(1) by (auto simp: is_js_whitespace_def)
  then have "hd ?c' = hd c" "last ?c' = last c"
    using ne by (simp_all add: hd_replace_crlf last_replace_crlf)
  with ends ne' have trim: "trim_js ?c' = ?c'"
    by (intro trim_js_fixed) simp_all
  have norm: "normalize c = ?c'"
    using nf by (intro normalize_normal_form_eq replace_crlf_normal_form)
  have "int (length ?c') \<le> int (length c)"
    using length_replace_crlf[of c] by simp
  also have "\<dots> \<le> effective_size options"
    using c pos by (rule spec_chunks_length)
  finally have len: "int (length ?c') \<le> effective_size options" .
  have ov: "effective_overlap options < effective_size options"
    using clamp_overlap_bounds[OF pos] by (simp add: effective_overlap_def)
  show ?thesis
    using chunkText_spec_chunks[OF ne pos] spec_chunks_single[OF ne' len ov trim]
    by (simp add: norm)
qed

section \<open>Rounding\<close>

lemma floor_rat_numeral [simp]:
  "\<lfloor>numeral a / numeral b :: rat\<rfloor> = numeral a div numeral b"
  using floor_divide_of_int_eq[of "numeral a" "numeral b", where ?'a = rat] by simp

lemmas rd_eval = round_double_def binary_exponent_def round_half_even_def exp_up.simps exp_down.simps Let_def


lemma exp_up_bounds:
  "1 \<le> x \<Longrightarrow> 0 \<le> exp_up x \<and> 2 powi exp_up x \<le> x \<and> x < 2 powi (exp_up x + 1)"
proof (induction x rule: exp_up.induct)
  case (1 x)
  show ?case
  proof (cases "x < 2")
    case True
    with "1.prems" show ?thesis by (simp add: exp_up.simps)
  next
    case False
    then have e: "exp_up x = exp_up (x / 2) + 1" by (simp add: exp_up.simps)
    from False have "1 \<le> x / 2" by simp
    from "1.IH"[OF False this]
    have ih: "0 \<le> exp_up (x / 2)" "2 powi exp_up (x / 2) \<le> x / 2" "x / 2 < 2 powi (exp_up (x / 2) + 1)"
      by auto
    have p: "(2::rat) powi (n + 1) = 2 powi n * 2" for n
      by (simp add: power_int_add)
    show ?thesis
      using ih unfolding e p by auto
  qed
qed

lemma exp_down_bounds:
  "0 < x \<Longrightarrow> x < 1 \<Longrightarrow> exp_down x < 0 \<and> 2 powi exp_down x \<le> x \<and> x < 2 powi (exp_down x + 1)"
proof (induction x rule: exp_down.induct)
  case (1 x)
  from "1.prems" have g: "\<not> (1 \<le> x \<or> x \<le> 0)" by auto
  then have e: "exp_down x = exp_down (2 * x) - 1" by (simp add: exp_down.simps)
  have p: "(2::rat) powi (n - 1) = 2 powi n / 2" for n
    by (simp add: power_int_diff)
  show ?case
  proof (cases "1 \<le> 2 * x")
    case True
    then have "exp_down (2 * x) = 0" by (simp add: exp_down.simps)
    with True "1.prems" show ?thesis unfolding e by (simp add: power_int_minus_divide)
  next
    case False
    then have "0 < 2 * x" "2 * x < 1" using "1.prems" by auto
    from "1.IH"[OF g this]
    have ih: "exp_down (2 * x) < 0" "2 powi exp_down (2 * x) \<le> 2 * x"
      "2 * x < 2 powi (exp_down (2 * x) + 1)"
      by auto
    have q: "(2::rat) powi (n + 1) = 2 powi n * 2" for n
      by (simp add: power_int_add)
    show ?thesis
      using ih(1,2) ih(3)[unfolded q] unfolding e p by auto
  qed
qed

lemma binary_exponent_bounds:
  assumes "x \<noteq> 0"
  shows "2 powi binary_exponent x \<le> \<bar>x\<bar>" and "\<bar>x\<bar> < 2 powi (binary_exponent x + 1)"
proof -
  have "2 powi binary_exponent x \<le> \<bar>x\<bar> \<and> \<bar>x\<bar> < 2 powi (binary_exponent x + 1)"
  proof (cases "1 \<le> \<bar>x\<bar>")
    case True
    with exp_up_bounds[OF True] show ?thesis by (simp add: binary_exponent_def)
  next
    case False
    with assms have "0 < \<bar>x\<bar>" "\<bar>x\<bar> < 1" by auto
    from exp_down_bounds[OF this] False show ?thesis by (simp add: binary_exponent_def)
  qed
  then show "2 powi binary_exponent x \<le> \<bar>x\<bar>" and "\<bar>x\<bar> < 2 powi (binary_exponent x + 1)"
    by auto
qed

lemma pow2_less_imp_less: "(2::rat) powi a \<le> y \<Longrightarrow> y < 2 powi b \<Longrightarrow> a < b"
proof (rule ccontr)
  assume 1: "(2::rat) powi a \<le> y" and 2: "y < 2 powi b" and "\<not> a < b"
  then have "b \<le> a" by simp
  then have "(2::rat) powi b \<le> 2 powi a" by (intro power_int_increasing) auto
  with 1 2 show False by simp
qed

lemma round_half_even_of_int [simp]: "round_half_even (of_int n) = n"
  by (simp add: round_half_even_def)

lemma round_half_even_lower: "of_int n \<le> y \<Longrightarrow> n \<le> round_half_even y"
proof -
  assume "of_int n \<le> y"
  then have "n \<le> \<lfloor>y\<rfloor>" by (simp add: le_floor_iff)
  then show ?thesis by (auto simp: round_half_even_def Let_def)
qed

lemma round_half_even_upper: "y \<le> of_int n \<Longrightarrow> round_half_even y \<le> n"
proof -
  assume a: "y \<le> of_int n"
  then have "y < of_int n + 1" by linarith
  then have f: "\<lfloor>y\<rfloor> \<le> n" by (simp add: floor_le_iff)
  show ?thesis
  proof (cases "y = of_int \<lfloor>y\<rfloor>")
    case True
    then have "y - of_int \<lfloor>y\<rfloor> < 1 / 2" by simp
    with f show ?thesis by (simp add: round_half_even_def Let_def)
  next
    case False
    have "of_int \<lfloor>y\<rfloor> \<le> y" by (rule of_int_floor_le)
    with False have "of_int \<lfloor>y\<rfloor> < y" by (metis order_le_less)
    with a have "(of_int \<lfloor>y\<rfloor> :: rat) < of_int n" by simp
    then have "\<lfloor>y\<rfloor> < n" by simp
    then show ?thesis by (auto simp: round_half_even_def Let_def)
  qed
qed


lemma pow2_le_imp_le: "(2::rat) powi a \<le> 2 powi b \<Longrightarrow> a \<le> b"
proof (rule ccontr)
  assume 1: "(2::rat) powi a \<le> 2 powi b" and "\<not> a \<le> b"
  then have "b < a" by simp
  then have "(2::rat) powi b < 2 powi a" by (intro power_int_strict_increasing) auto
  with 1 show False by simp
qed

lemma pow2_pos [simp]: "(0::rat) < 2 powi k"
  by (simp add: zero_less_power_int)

lemma round_double_quantum:
  assumes "x \<noteq> 0"
  shows "round_double x =
    of_int (round_half_even (x / 2 powi max (binary_exponent x - 52) (- 1074)))
      * 2 powi max (binary_exponent x - 52) (- 1074)"
  using assms by (simp add: round_double_def Let_def)

lemma round_double_exact:
  assumes m: "\<bar>m\<bar> \<le> 2 ^ 53" and j: "- 1074 \<le> j"
  shows "round_double (of_int m * 2 powi j) = of_int m * 2 powi j"
proof (cases "m = 0")
  case True
  then show ?thesis by (simp add: round_double_def)
next
  case False
  define x :: rat where "x = of_int m * 2 powi j"
  define e where "e = binary_exponent x"
  define k where "k = max (e - 52) (- 1074)"
  have x0: "x \<noteq> 0" using False by (simp add: x_def)
  have ax: "\<bar>x\<bar> = of_int \<bar>m\<bar> * 2 powi j"
    by (simp add: x_def abs_mult)
  have "(of_int \<bar>m\<bar> :: rat) \<le> of_int (2 ^ 53)" using m by (simp only: of_int_le_iff)
  then have "(of_int \<bar>m\<bar> :: rat) \<le> 2 powi 53" by simp
  then have "\<bar>x\<bar> \<le> (2::rat) powi 53 * 2 powi j"
    unfolding ax by (intro mult_right_mono) auto
  also have "\<dots> = 2 powi (53 + j)" by (simp add: power_int_add)
  finally have ub: "\<bar>x\<bar> \<le> 2 powi (53 + j)" .
  have lb: "2 powi e \<le> \<bar>x\<bar>" unfolding e_def using x0 by (rule binary_exponent_bounds)
  from lb ub have e: "e \<le> 53 + j" by (intro pow2_le_imp_le) simp
  have "\<exists>i. x / 2 powi k = of_int i"
  proof (cases "k \<le> j")
    case True
    have "x / 2 powi k = of_int m * 2 powi (j - k)"
      by (simp add: x_def power_int_diff)
    also have "\<dots> = of_int m * 2 ^ nat (j - k)"
      using True by (simp add: power_int_def)
    also have "\<dots> = of_int (m * 2 ^ nat (j - k))" by simp
    finally show ?thesis by blast
  next
    case False
    with j have k: "k = e - 52" "j < e - 52" by (auto simp: k_def)
    with e have ej: "e = 53 + j" by simp
    then have kj: "k = j + 1" using k by simp
    from lb have "(2::rat) powi 53 * 2 powi j \<le> of_int \<bar>m\<bar> * 2 powi j"
      unfolding ax ej by (simp add: power_int_add)
    then have "(2::rat) powi 53 \<le> of_int \<bar>m\<bar>"
      by (simp add: mult_le_cancel_right)
    then have "(of_int (2 ^ 53) :: rat) \<le> of_int \<bar>m\<bar>" by simp
    then have "2 ^ 53 \<le> \<bar>m\<bar>" by (simp only: of_int_le_iff)
    with m have am: "\<bar>m\<bar> = 2 ^ 53" by simp
    have "even \<bar>m\<bar>" unfolding am by simp
    then have "even m" by simp
    then have "m = 2 * (m div 2)" by simp
    then have "(of_int m :: rat) = 2 * of_int (m div 2)"
      by (metis of_int_mult of_int_numeral)
    then have "x / 2 powi k = of_int (m div 2)"
      unfolding kj x_def by (simp add: power_int_add)
    then show ?thesis by blast
  qed
  then obtain i where i: "x / 2 powi k = of_int i" by blast
  then have "x = of_int i * 2 powi k" by (simp add: field_simps)
  moreover have "round_double x = of_int (round_half_even (x / 2 powi k)) * 2 powi k"
    using round_double_quantum[OF x0] by (simp add: k_def e_def)
  ultimately show ?thesis unfolding x_def[symmetric] by (simp add: i)
qed

lemma round_double_of_int:
  "\<bar>n\<bar> \<le> 2 ^ 53 \<Longrightarrow> round_double (of_int n) = of_int n"
  using round_double_exact[of n 0] by simp

lemma round_double_large:
  assumes "2 ^ 53 \<le> x"
  shows "2 ^ 53 \<le> round_double x"
proof -
  define e where "e = binary_exponent x"
  define k where "k = max (e - 52) (- 1074)"
  define r where "r = round_half_even (x / 2 powi k)"
  have x0: "x \<noteq> 0" and xp: "\<bar>x\<bar> = x" using assms by auto
  have "(2::rat) powi 53 \<le> x" using assms by simp
  moreover have "x < 2 powi (e + 1)"
    using binary_exponent_bounds(2)[OF x0] by (simp add: e_def xp)
  ultimately have "53 < e + 1" by (rule pow2_less_imp_less)
  then have e: "53 \<le> e" and k: "k = e - 52" by (auto simp: k_def)
  have ek: "52 + k = e" "e - k = 52" unfolding k by simp_all
  have "(2::rat) powi e \<le> x"
    using binary_exponent_bounds(1)[OF x0] by (simp add: e_def xp)
  then have "2 powi e / 2 powi k \<le> x / 2 powi k"
    by (simp add: divide_right_mono)
  moreover have "(2::rat) powi (e - k) = 2 powi e / 2 powi k"
    by (rule power_int_diff) simp
  ultimately have "of_int (2 ^ 52) \<le> x / 2 powi k"
    unfolding ek by simp
  then have "2 ^ 52 \<le> r"
    unfolding r_def by (rule round_half_even_lower)
  then have "(of_int (2 ^ 52) :: rat) \<le> of_int r"
    by (simp only: of_int_le_iff)
  then have "(2::rat) powi 52 \<le> of_int r" by simp
  then have A: "(2::rat) powi 52 * 2 powi k \<le> of_int r * 2 powi k"
    by (intro mult_right_mono) auto
  have "(2::rat) powi (52 + k) = 2 powi 52 * 2 powi k" by (rule power_int_add) simp
  then have B: "(2::rat) powi 52 * 2 powi k = 2 powi e" unfolding ek by simp
  have C: "(2::rat) powi 53 \<le> 2 powi e"
    using e by (intro power_int_increasing) auto
  have D: "round_double x = of_int r * 2 powi k"
    using round_double_quantum[OF x0] by (simp add: k_def e_def r_def)
  have "(2::rat) powi 53 \<le> of_int r * 2 powi k"
    using A C unfolding B by (rule order_trans[rotated])
  then show ?thesis unfolding D by simp
qed

lemma round_double_negative:
  assumes "x < 0"
  shows "round_double x \<le> 0"
proof -
  define k where "k = max (binary_exponent x - 52) (- 1074)"
  have x0: "x \<noteq> 0" using assms by simp
  have "x / 2 powi k \<le> of_int 0" using assms by (simp add: divide_le_0_iff)
  then have "round_half_even (x / 2 powi k) \<le> 0" by (rule round_half_even_upper)
  then have "(of_int (round_half_even (x / 2 powi k)) :: rat) \<le> 0" by simp
  then have "(of_int (round_half_even (x / 2 powi k)) :: rat) * 2 powi k \<le> 0"
    by (simp add: mult_le_0_iff)
  then show ?thesis using round_double_quantum[OF x0] by (simp add: k_def)
qed

lemma round_double_mantissa:
  assumes "x \<noteq> 0"
  shows "\<bar>round_half_even (x / 2 powi max (binary_exponent x - 52) (- 1074))\<bar> \<le> 2 ^ 53"
proof -
  define e where "e = binary_exponent x"
  define k where "k = max (e - 52) (- 1074)"
  have "\<bar>x\<bar> < 2 powi (e + 1)"
    unfolding e_def using assms by (rule binary_exponent_bounds)
  also have "(2::rat) powi (e + 1) \<le> 2 powi (53 + k)"
    by (intro power_int_increasing) (auto simp: k_def)
  also have "\<dots> = (2::rat) powi 53 * 2 powi k" by (simp add: power_int_add)
  finally have "\<bar>x\<bar> / 2 powi k < 2 powi 53"
    by (simp add: pos_divide_less_eq)
  then have a: "\<bar>x\<bar> / 2 powi k < 2 ^ 53" by simp
  have "x \<le> \<bar>x\<bar>" "- \<bar>x\<bar> \<le> x" by simp_all
  then have "x / 2 powi k \<le> \<bar>x\<bar> / 2 powi k" "- \<bar>x\<bar> / 2 powi k \<le> x / 2 powi k"
    by (simp_all only: divide_right_mono pow2_pos less_imp_le)
  with a have "x / 2 powi k \<le> 2 ^ 53" "- (2 ^ 53) \<le> x / 2 powi k"
    by linarith+
  then have "x / 2 powi k \<le> of_int (2 ^ 53)" "of_int (- (2 ^ 53)) \<le> x / 2 powi k"
    by simp_all
  then have "round_half_even (x / 2 powi k) \<le> 2 ^ 53" "- (2 ^ 53) \<le> round_half_even (x / 2 powi k)"
    by (auto intro: round_half_even_upper round_half_even_lower)
  then show ?thesis by (simp add: k_def e_def abs_le_iff)
qed

lemma floor_round_double_quarter:
  assumes s: "0 < s" and r: "round_double (of_int s) = of_int s"
  shows "\<lfloor>round_double (of_int s / 4)\<rfloor> = s div 4"
proof -
  define x :: rat where "x = of_int s"
  define k where "k = max (binary_exponent x - 52) (- 1074)"
  define i where "i = round_half_even (x / 2 powi k)"
  have x0: "x \<noteq> 0" using s by (simp add: x_def)
  have "1 \<le> \<bar>x\<bar>" using s by (simp add: x_def)
  then have "0 \<le> binary_exponent x"
    using exp_up_bounds[of "\<bar>x\<bar>"] by (simp add: binary_exponent_def)
  then have k: "- 52 \<le> k" by (simp add: k_def)
  have i: "\<bar>i\<bar> \<le> 2 ^ 53"
    unfolding i_def k_def by (rule round_double_mantissa[OF x0])
  have "x = of_int i * 2 powi k"
    using round_double_quantum[OF x0] r by (simp add: x_def i_def k_def)
  then have "x / 4 = of_int i * 2 powi (k - 2)"
    by (simp add: power_int_diff)
  moreover have "round_double (of_int i * 2 powi (k - 2)) = of_int i * 2 powi (k - 2)"
    using i k by (intro round_double_exact) auto
  ultimately have rq: "round_double (x / 4) = x / 4" by (simp only:)
  have "\<lfloor>round_double (of_int s / 4)\<rfloor> = \<lfloor>(of_int s :: rat) / of_int 4\<rfloor>"
    by (simp only: rq[unfolded x_def] of_int_numeral)
  also have "\<dots> = s div 4" by (rule floor_divide_of_int_eq)
  finally show ?thesis .
qed

section \<open>On integer options the doubles compute what the integers compute\<close>

lemma chunk_loop_double_next:
  assumes "start < of_nat (length normalized)"
    and "min (round_double (start + chunk_size)) (of_nat (length normalized)) = e"
    and "e \<noteq> of_nat (length normalized)"
    and "max 0 (round_double (e - overlap)) = start'"
  shows "chunk_loop_double normalized chunk_size overlap start chunks =
         chunk_loop_double normalized chunk_size overlap start'
           (chunks @ [trim_js (slice_js normalized (to_integer start) (to_integer e))])"
  using assms by (subst chunk_loop_double.simps) (simp add: Let_def)

lemma chunk_loop_double_last:
  assumes "start < of_nat (length normalized)"
    and "min (round_double (start + chunk_size)) (of_nat (length normalized)) = of_nat (length normalized)"
  shows "chunk_loop_double normalized chunk_size overlap start chunks =
         Some (chunks @ [trim_js (slice_js normalized (to_integer start)
                  (to_integer (of_nat (length normalized))))])"
  using assms by (subst chunk_loop_double.simps) (simp add: Let_def)

lemma chunk_loop_double_no_progress_aux:
  assumes "chunk_loop_double normalized chunk_size overlap start chunks = Some result"
  shows "\<not> (start < of_nat (length normalized)
            \<and> min (round_double (start + chunk_size)) (of_nat (length normalized))
                  \<noteq> of_nat (length normalized)
            \<and> max 0 (round_double
                  (min (round_double (start + chunk_size)) (of_nat (length normalized)) - overlap))
                = start)"
  using assms
proof (induction rule: chunk_loop_double.raw_induct[rotated 1, consumes 1, case_names step])
  case (step loop normalized chunk_size overlap start chunks result)
  show ?case
  proof
    assume a: "start < of_nat (length normalized)
            \<and> min (round_double (start + chunk_size)) (of_nat (length normalized))
                  \<noteq> of_nat (length normalized)
            \<and> max 0 (round_double
                  (min (round_double (start + chunk_size)) (of_nat (length normalized)) - overlap))
                = start"
    with step.hyps have "loop normalized chunk_size overlap start
        (chunks @ [trim_js (slice_js normalized (to_integer start)
           (to_integer (min (round_double (start + chunk_size)) (of_nat (length normalized)))))])
         = Some result"
      by (simp add: Let_def)
    from step.IH[OF this] a show False by simp
  qed
qed

lemma chunk_loop_double_no_progress:
  assumes "start < of_nat (length normalized)"
    and "min (round_double (start + chunk_size)) (of_nat (length normalized)) = e"
    and "e \<noteq> of_nat (length normalized)"
    and "max 0 (round_double (e - overlap)) = start"
  shows "chunk_loop_double normalized chunk_size overlap start chunks = None"
  using chunk_loop_double_no_progress_aux[of normalized chunk_size overlap start chunks] assms
  by (cases "chunk_loop_double normalized chunk_size overlap start chunks") auto

lemma frac_size:
  "chunkText_double (js ''abcdefghij'') \<lparr>dbl_size = Some (5 / 2), dbl_overlap = None\<rparr>
     = Some [js ''ab'', js ''cde'', js ''fg'', js ''hij'']
   \<and> (5 / 2 :: rat) < of_nat (length (js ''cde''))"
proof -
  let ?N = "js ''abcdefghij''"
  have n: "normalize ?N = ?N"
    by (simp add: normalize_def js_def replace_tab_def replace_nbsp_def is_space_ff_vt_def)
  have len: "(of_nat (length ?N) :: rat) = 10" by (simp add: js_def)
  have ov: "(of_int \<lfloor>round_double (5 / 8)\<rfloor> :: rat) = 0" by (simp add: rd_eval)
  have e0: "min (round_double (0 + 5 / 2)) (of_nat (length ?N)) = 5 / 2"
    unfolding len by (simp add: rd_eval)
  have s1: "max 0 (round_double (5 / 2 - 0)) = 5 / 2" by (simp add: rd_eval)
  have e1: "min (round_double (5 / 2 + 5 / 2)) (of_nat (length ?N)) = 5"
    unfolding len by (simp add: rd_eval)
  have s2: "max 0 (round_double (5 - 0)) = 5" by (simp add: rd_eval)
  have e2: "min (round_double (5 + 5 / 2)) (of_nat (length ?N)) = 15 / 2"
    unfolding len by (simp add: rd_eval)
  have s3: "max 0 (round_double (15 / 2 - 0)) = 15 / 2" by (simp add: rd_eval)
  have e3: "min (round_double (15 / 2 + 5 / 2)) (of_nat (length ?N)) = of_nat (length ?N)"
    unfolding len by (simp add: rd_eval)
  have "chunk_loop_double ?N (5 / 2) 0 0 [] =
        chunk_loop_double ?N (5 / 2) 0 (5 / 2)
          ([] @ [trim_js (slice_js ?N (to_integer 0) (to_integer (5 / 2)))])"
    by (rule chunk_loop_double_next[OF _ e0 _ s1]) (simp_all add: len)
  also have "\<dots> = chunk_loop_double ?N (5 / 2) 0 5
          (([] @ [trim_js (slice_js ?N (to_integer 0) (to_integer (5 / 2)))])
             @ [trim_js (slice_js ?N (to_integer (5 / 2)) (to_integer 5))])"
    by (rule chunk_loop_double_next[OF _ e1 _ s2]) (simp_all add: len)
  also have "\<dots> = chunk_loop_double ?N (5 / 2) 0 (15 / 2)
          ((([] @ [trim_js (slice_js ?N (to_integer 0) (to_integer (5 / 2)))])
             @ [trim_js (slice_js ?N (to_integer (5 / 2)) (to_integer 5))])
             @ [trim_js (slice_js ?N (to_integer 5) (to_integer (15 / 2)))])"
    by (rule chunk_loop_double_next[OF _ e2 _ s3]) (simp_all add: len)
  also have "\<dots> = Some
          (((([] @ [trim_js (slice_js ?N (to_integer 0) (to_integer (5 / 2)))])
             @ [trim_js (slice_js ?N (to_integer (5 / 2)) (to_integer 5))])
             @ [trim_js (slice_js ?N (to_integer 5) (to_integer (15 / 2)))])
             @ [trim_js (slice_js ?N (to_integer (15 / 2)) (to_integer (of_nat (length ?N))))])"
    by (rule chunk_loop_double_last[OF _ e3]) (simp add: len)
  also have "\<dots> = Some [js ''ab'', js ''cde'', js ''fg'', js ''hij'']"
    by (simp add: js_def to_integer_def slice_js_def trim_js_def is_js_whitespace_def)
  finally have loop: "chunk_loop_double ?N (5 / 2) 0 0 [] =
      Some [js ''ab'', js ''cde'', js ''fg'', js ''hij'']" .
  have "?N \<noteq> []" by (simp add: js_def)
  then have "chunkText_double ?N \<lparr>dbl_size = Some (5 / 2), dbl_overlap = None\<rparr>
     = map_option (filter (\<lambda>c. c \<noteq> [])) (chunk_loop_double ?N (5 / 2) 0 0 [])"
    by (simp add: chunkText_double_def n ov)
  also have "\<dots> = Some [js ''ab'', js ''cde'', js ''fg'', js ''hij'']"
    unfolding loop by (simp add: js_def)
  finally show ?thesis by (simp add: js_def)
qed

lemma to_integer_of_int [simp]: "to_integer (of_int n) = n"
  by (simp add: to_integer_def)

lemma to_integer_of_nat [simp]: "to_integer (of_nat n) = int n"
  using to_integer_of_int[of "int n"] by (simp del: to_integer_of_int)

lemma window_end_int:
  assumes L: "int (length normalized) \<le> 2 ^ 53" and s: "0 \<le> start" and z: "0 < chunk_size"
  shows "min (round_double (of_int start + of_int chunk_size)) (of_nat (length normalized))
           = of_int (min (start + chunk_size) (int (length normalized)))"
proof (cases "start + chunk_size \<le> 2 ^ 53")
  case True
  with s z have "\<bar>start + chunk_size\<bar> \<le> 2 ^ 53" by simp
  then have "round_double (of_int (start + chunk_size)) = of_int (start + chunk_size)"
    by (rule round_double_of_int)
  then have "round_double (of_int start + of_int chunk_size) = of_int (start + chunk_size)"
    by simp
  moreover have "(of_nat (length normalized) :: rat) = of_int (int (length normalized))" by simp
  ultimately show ?thesis by (simp only: of_int_min)
next
  case False
  then have "2 ^ 53 \<le> start + chunk_size" by simp
  then have "(of_int (2 ^ 53) :: rat) \<le> of_int (start + chunk_size)"
    by (simp only: of_int_le_iff)
  then have "2 ^ 53 \<le> round_double (of_int start + of_int chunk_size)"
    by (intro round_double_large) simp
  moreover have "(of_int (int (length normalized)) :: rat) \<le> of_int (2 ^ 53)"
    using L by (simp only: of_int_le_iff)
  ultimately have "(of_nat (length normalized) :: rat) \<le> round_double (of_int start + of_int chunk_size)"
    by simp
  moreover have "int (length normalized) \<le> start + chunk_size" using False L by simp
  ultimately show ?thesis by (simp add: min_def)
qed

lemma next_start_int:
  assumes L: "int (length normalized) \<le> 2 ^ 53" and e: "0 \<le> e" "e \<le> int (length normalized)"
    and o: "0 \<le> overlap"
  shows "max 0 (round_double (of_int e - of_int overlap)) = of_int (max 0 (e - overlap))"
proof (cases "overlap \<le> e + 2 ^ 53")
  case True
  with e o L have "\<bar>e - overlap\<bar> \<le> 2 ^ 53" by simp
  then have "round_double (of_int (e - overlap)) = of_int (e - overlap)"
    by (rule round_double_of_int)
  then have "round_double (of_int e - of_int overlap) = of_int (e - overlap)" by simp
  then show ?thesis by (simp only: of_int_max of_int_0)
next
  case False
  with e have neg: "e - overlap < 0" by simp
  then have "(of_int e - of_int overlap :: rat) < 0" by simp
  then have "round_double (of_int e - of_int overlap) \<le> 0" by (rule round_double_negative)
  with neg show ?thesis by (simp add: max_def)
qed

lemma chunk_loop_double_windows:
  assumes L: "int (length normalized) \<le> 2 ^ 53"
  shows "0 \<le> start \<Longrightarrow> 0 \<le> overlap \<Longrightarrow> overlap < chunk_size \<Longrightarrow>
   chunk_loop_double normalized (of_int chunk_size) (of_int overlap) (of_int start) chunks =
     Some (chunks @ map (window_chunk normalized)
             (spec_windows (int (length normalized)) chunk_size overlap start))"
proof (induction "int (length normalized)" chunk_size overlap start arbitrary: chunks
       rule: spec_windows.induct)
  case (1 chunk_size overlap start)
  let ?L = "int (length normalized)"
  have z: "0 < chunk_size" using "1.prems" by simp
  have lt: "((of_int start :: rat) < of_nat (length normalized)) = (start < ?L)"
    by (metis of_int_less_iff of_int_of_nat_eq)
  show ?case
  proof (cases "start < ?L")
    case False
    then show ?thesis
      by (subst chunk_loop_double.simps) (simp add: lt spec_windows_stop)
  next
    case True
    define e where "e = min (start + chunk_size) ?L"
    have guard: "start < ?L \<and> overlap < chunk_size" using True "1.prems" by simp
    have E: "min (round_double (of_int start + of_int chunk_size)) (of_nat (length normalized))
               = of_int e"
      unfolding e_def by (rule window_end_int[OF L "1.prems"(1) z])
    have eL: "((of_int e :: rat) = of_nat (length normalized)) = (e = ?L)"
      by (metis of_int_eq_iff of_int_of_nat_eq)
    have step: "spec_windows ?L chunk_size overlap start =
       (start, e) # (if e = ?L then [] else spec_windows ?L chunk_size overlap (max 0 (e - overlap)))"
      unfolding e_def using guard by (simp add: spec_windows_step)
    have sl: "trim_js (slice_js normalized (to_integer (of_int start)) (to_integer (of_int e)))
                = window_chunk normalized (start, e)"
      by (simp add: window_chunk_def window_slice_def)
    show ?thesis
    proof (cases "e = ?L")
      case True
      have "chunk_loop_double normalized (of_int chunk_size) (of_int overlap) (of_int start) chunks
         = Some (chunks @ [trim_js (slice_js normalized (to_integer (of_int start))
                  (to_integer (of_nat (length normalized))))])"
        by (rule chunk_loop_double_last) (use guard E True in \<open>simp_all add: lt\<close>)
      with True step show ?thesis
        by (simp add: window_chunk_def window_slice_def)
    next
      case False
      have eb: "0 \<le> e" "e \<le> ?L"
        using guard "1.prems" by (auto simp: e_def)
      have N: "max 0 (round_double (of_int e - of_int overlap)) = of_int (max 0 (e - overlap))"
        by (rule next_start_int[OF L eb "1.prems"(2)])
      have "chunk_loop_double normalized (of_int chunk_size) (of_int overlap) (of_int start) chunks
         = chunk_loop_double normalized (of_int chunk_size) (of_int overlap)
             (of_int (max 0 (e - overlap)))
             (chunks @ [trim_js (slice_js normalized (to_integer (of_int start)) (to_integer (of_int e)))])"
        by (rule chunk_loop_double_next[OF _ E _ N]) (use guard False in \<open>simp_all add: lt eL\<close>)
      also have "\<dots> = Some ((chunks @ [window_chunk normalized (start, e)]) @
            map (window_chunk normalized)
              (spec_windows ?L chunk_size overlap (max 0 (e - overlap))))"
        unfolding sl
        by (rule "1.hyps"[OF guard e_def False _ "1.prems"(2,3)]) simp
      finally show ?thesis using step False by simp
    qed
  qed
qed

lemma length_collapse_spaces: "length (collapse_spaces s) \<le> length s"
proof (induction s rule: collapse_spaces.induct)
  case 1
  then show ?case by simp
next
  case (2 c cs)
  have "length (dropWhile is_space_ff_vt cs) \<le> length cs" by (rule length_dropWhile_le)
  with 2 show ?case by auto
qed

lemma length_normalize: "length (normalize text) \<le> length text"
proof -
  have "length (normalize text) \<le> length (replace_nbsp (replace_tab (replace_crlf text)))"
    unfolding normalize_def by (rule length_collapse_spaces)
  also have "\<dots> = length (replace_crlf text)" by (simp add: replace_nbsp_def replace_tab_def)
  also have "\<dots> \<le> length text" by (rule length_replace_crlf)
  finally show ?thesis .
qed

lemma integer_options_int:
  assumes "integer_options options"
  obtains ioptions where "options = double_options ioptions"
proof
  show "options = double_options
      \<lparr>opt_size = map_option floor (dbl_size options),
       opt_overlap = map_option floor (dbl_overlap options)\<rparr>"
    using assms
    by (cases options)
       (auto simp: double_options_def integer_options_def integer_double_def
             split: option.splits)
qed

lemma chunkText_double_int:
  assumes L: "int (length text) \<le> 2 ^ 53"
    and i: "integer_options (double_options options)"
  shows "chunkText_double text (double_options options) = chunkText text options"
proof (cases "text \<noteq> [] \<and> 0 < effective_size options")
  case False
  then show ?thesis
    by (auto simp: chunkText_double_def chunkText_def double_options_def effective_size_def
        Let_def split: option.splits)
next
  case True
  let ?sz = "effective_size options" and ?ov = "effective_overlap options"
  let ?N = "normalize text"
  define ov0 where "ov0 = (case opt_overlap options of Some n \<Rightarrow> n | None \<Rightarrow> 200)"
  have sz: "(case dbl_size (double_options options) of Some n \<Rightarrow> n | None \<Rightarrow> 1200)
              = (of_int ?sz :: rat)"
    by (simp add: double_options_def effective_size_def split: option.splits)
  have ov: "(case dbl_overlap (double_options options) of Some n \<Rightarrow> n | None \<Rightarrow> 200)
              = (of_int ov0 :: rat)"
    by (simp add: double_options_def ov0_def split: option.splits)
  have rep: "round_double (of_int ?sz) = of_int ?sz"
  proof (cases "opt_size options")
    case None
    then have "?sz = 1200" by (simp add: effective_size_def)
    then show ?thesis using round_double_of_int[of 1200] by simp
  next
    case (Some n)
    with i show ?thesis
      by (simp add: integer_options_def double_options_def integer_double_def effective_size_def)
  qed
  have q: "(of_int \<lfloor>round_double (of_int ?sz / 4)\<rfloor> :: rat) = of_int (?sz div 4)"
    using floor_round_double_quarter[OF _ rep] True by simp
  have clamp: "(let overlap = (if (of_int ov0 :: rat) < 0 then 0 else of_int ov0)
                in if overlap \<ge> of_int ?sz
                   then of_int \<lfloor>round_double (of_int ?sz / 4)\<rfloor> else overlap)
               = (of_int ?ov :: rat)"
    unfolding q
    by (simp add: effective_overlap_def clamp_overlap_def ov0_def[symmetric] Let_def)
  have b: "0 \<le> ?ov" "?ov < ?sz"
    using True clamp_overlap_bounds[of ?sz] by (simp_all add: effective_overlap_def)
  have LN: "int (length ?N) \<le> 2 ^ 53"
    using L length_normalize[of "text"] by linarith
  have "chunkText_double text (double_options options) =
          map_option (filter (\<lambda>c. c \<noteq> []))
            (chunk_loop_double ?N (of_int ?sz) (of_int ?ov) (of_int 0) [])"
    using True clamp unfolding chunkText_double_def sz ov by (simp add: Let_def)
  also have "\<dots> = Some (spec_chunks ?N ?sz ?ov)"
    using chunk_loop_double_windows[OF LN _ b, of 0 "[]"] by (simp add: spec_chunks_def)
  also have "\<dots> = chunkText text options"
    using True by (simp add: chunkText_spec_chunks)
  finally show ?thesis .
qed

lemma double_size_int: "double_size (double_options options) = of_int (effective_size options)"
  by (simp add: double_size_def double_options_def effective_size_def split: option.splits)

lemma chunkText_double_windowing:
  "text \<noteq> [] \<Longrightarrow> 0 < double_size options \<Longrightarrow>
     chunkText_double text options =
       map_option (filter (\<lambda>c. c \<noteq> []))
         (chunk_loop_double (normalize text) (double_size options) (double_overlap options) 0 [])"
  by (simp add: chunkText_double_def double_size_def double_overlap_def Let_def)

lemma double_overlap_int:
  assumes i: "integer_options (double_options options)" and p: "0 < effective_size options"
  shows "double_overlap (double_options options) = of_int (effective_overlap options)"
proof -
  let ?sz = "effective_size options"
  define ov0 where "ov0 = (case opt_overlap options of Some n \<Rightarrow> n | None \<Rightarrow> 200)"
  have ov: "(case dbl_overlap (double_options options) of Some n \<Rightarrow> n | None \<Rightarrow> 200)
              = (of_int ov0 :: rat)"
    by (simp add: double_options_def ov0_def split: option.splits)
  have rep: "round_double (of_int ?sz) = of_int ?sz"
  proof (cases "opt_size options")
    case None
    then have "?sz = 1200" by (simp add: effective_size_def)
    then show ?thesis using round_double_of_int[of 1200] by simp
  next
    case (Some n)
    with i show ?thesis
      by (simp add: integer_options_def double_options_def integer_double_def effective_size_def)
  qed
  have q: "(of_int \<lfloor>round_double (of_int ?sz / 4)\<rfloor> :: rat) = of_int (?sz div 4)"
    using floor_round_double_quarter[OF p rep] by simp
  show ?thesis
    unfolding double_overlap_def double_size_int ov q
    by (simp add: effective_overlap_def clamp_overlap_def ov0_def[symmetric] Let_def)
qed

lemma spec_chunks_length_text:
  assumes "c \<in> set (spec_chunks normalized chunk_size overlap)"
  shows "length c \<le> length normalized"
proof -
  from assms obtain w where c: "c = window_chunk normalized w"
    by (rule spec_chunks_member)
  have "length c \<le> length (slice_js normalized (fst w) (snd w))"
    unfolding c window_chunk_def window_slice_def by (rule length_trim_js)
  also have "\<dots> \<le> length normalized"
    using slice_js_take_drop_ex[of normalized "fst w" "snd w"] by auto
  finally show ?thesis .
qed

lemma replace_crlf_split:
  "replace_crlf (xs @ CR # LF # ys) = replace_crlf xs @ LF # replace_crlf ys"
  by (induction xs rule: replace_crlf.induct) auto

lemma has_crlf_iff: "has_crlf s \<longleftrightarrow> (\<exists>xs ys. s = xs @ CR # LF # ys)"
proof
  show "has_crlf s \<Longrightarrow> \<exists>xs ys. s = xs @ CR # LF # ys"
  proof (induction s rule: has_crlf.induct)
    case (1 c d cs)
    show ?case
    proof (cases "c = CR \<and> d = LF")
      case True
      then have "c # d # cs = [] @ CR # LF # cs" by simp
      then show ?thesis by blast
    next
      case False
      with 1 obtain xs ys where "d # cs = xs @ CR # LF # ys" by auto
      then have "c # d # cs = (c # xs) @ CR # LF # ys" by simp
      then show ?thesis by blast
    qed
  qed simp_all
next
  assume "\<exists>xs ys. s = xs @ CR # LF # ys"
  then obtain xs ys where s: "s = xs @ CR # LF # ys" by blast
  have "has_crlf (xs @ CR # LF # ys)"
    by (induction xs rule: has_crlf.induct) auto
  with s show "has_crlf s" by simp
qed

lemma replace_crlf_fixed: "(\<forall>xs ys. s \<noteq> xs @ CR # LF # ys) \<Longrightarrow> replace_crlf s = s"
  using has_crlf_iff[of s] by (intro replace_crlf_no_crlf) blast

lemma collapse_spaces_split:
  "c \<noteq> SP \<and> c \<noteq> FF \<and> c \<noteq> VT \<Longrightarrow>
     collapse_spaces (xs @ c # ys) = collapse_spaces xs @ c # collapse_spaces ys"
proof (induction xs rule: collapse_spaces.induct)
  case 1
  then show ?case by (simp add: is_space_ff_vt_def)
next
  case (2 x xs)
  have c: "\<not> is_space_ff_vt c" using "2.prems" by (simp add: is_space_ff_vt_def)
  show ?case
  proof (cases "is_space_ff_vt x")
    case True
    have "dropWhile is_space_ff_vt (xs @ c # ys) = dropWhile is_space_ff_vt xs @ c # ys"
      using c by (induction xs) auto
    with True "2.IH"(1)[OF True "2.prems"] show ?thesis by simp
  next
    case False
    with "2.IH"(2)[OF False "2.prems"] show ?thesis by simp
  qed
qed

lemma collapse_spaces_run:
  "r \<noteq> [] \<and> set r \<subseteq> {SP, FF, VT} \<Longrightarrow> collapse_spaces r = [SP]"
proof (cases r)
  case Nil
  assume "r \<noteq> [] \<and> set r \<subseteq> {SP, FF, VT}"
  with Nil show ?thesis by simp
next
  case (Cons c cs)
  assume "r \<noteq> [] \<and> set r \<subseteq> {SP, FF, VT}"
  with Cons have c: "is_space_ff_vt c" and cs: "\<forall>x \<in> set cs. is_space_ff_vt x"
    by (auto simp: is_space_ff_vt_def)
  from cs have dw: "dropWhile is_space_ff_vt cs = []" by simp
  have "collapse_spaces (c # cs) = SP # collapse_spaces (dropWhile is_space_ff_vt cs)"
    using c by simp
  then show ?thesis unfolding Cons dw by simp
qed

section \<open>Properties\<close>

text \<open>
  C1. For a non-empty text and a positive size, \<^verbatim>\<open>chunkText\<close> returns what the windowing
  algorithm of the specification emits over the normalized text: the cursor starts at 0,
  a window ends at \<open>min (start + size) L\<close>, its trimmed slice is emitted (and kept when it
  is not empty), the window that ends at \<open>L\<close> is the last, and otherwise the cursor moves
  to \<open>max 0 (end - overlap)\<close>; the clamped overlap is below the size, so the cursor
  advances. The windows are those of \<open>spec_windows\<close>, and the theorem states what they
  are as well: the first starts at 0, each ends at \<open>min (start + size) L\<close>, each next one
  starts at \<open>max 0 (end - overlap)\<close>, and the last ends at \<open>L\<close>.
  On \<^verbatim>\<open>"0123456789"\<close> with size 4 and overlap 2 the chunks are \<^verbatim>\<open>"0123"\<close>, \<^verbatim>\<open>"2345"\<close>,
  \<^verbatim>\<open>"4567"\<close>, \<^verbatim>\<open>"6789"\<close>; each window starts 2 before the end of the one before, and the
  last window ends at 10.
\<close>

theorem chunkText_windowing:
  "(text \<noteq> [] \<and> 0 < effective_size options \<longrightarrow>
      (let normalized = normalize text; L = int (length normalized);
           chunk_size = effective_size options; overlap = effective_overlap options;
           windows = spec_windows L chunk_size overlap 0
       in 0 \<le> overlap \<and> overlap < chunk_size
          \<and> chunkText text options =
               Some (filter (\<lambda>c. c \<noteq> []) (map (\<lambda>w. trim_js (slice_js normalized (fst w) (snd w))) windows))
          \<and> windows \<noteq> [] \<and> fst (hd windows) = 0
          \<and> (\<forall>w \<in> set windows. snd w = min (fst w + chunk_size) L)
          \<and> advances overlap windows
          \<and> snd (last windows) = L))
   \<and> chunkText (js ''0123456789'') \<lparr>opt_size = Some 4, opt_overlap = Some 2\<rparr> =
        Some [js ''0123'', js ''2345'', js ''4567'', js ''6789'']
   \<and> spec_windows (int (length (normalize (js ''0123456789'')))) 4 2 0 =
        [(0, 4), (2, 6), (4, 8), (6, 10)]
   \<and> advances 2 [(0, 4), (2, 6), (4, 8), (6, 10)]"
proof (intro conjI impI)
  show "advances 2 [(0, 4), (2, 6), (4, 8), (6, 10)]" by simp
  show "chunkText (js ''0123456789'') \<lparr>opt_size = Some 4, opt_overlap = Some 2\<rparr> =
        Some [js ''0123'', js ''2345'', js ''4567'', js ''6789'']"
    by (simp add: chunk_eval)
  show "spec_windows (int (length (normalize (js ''0123456789'')))) 4 2 0 =
        [(0, 4), (2, 6), (4, 8), (6, 10)]"
    by (simp add: chunk_eval)
next
  assume a: "text \<noteq> [] \<and> 0 < effective_size options"
  let ?N = "normalize text" and ?sz = "effective_size options" and ?ov = "effective_overlap options"
  let ?ws = "spec_windows (int (length ?N)) ?sz ?ov 0"
  have ov: "0 \<le> ?ov" "?ov < ?sz"
    using a clamp_overlap_bounds[of ?sz] by (simp_all add: effective_overlap_def)
  have L: "0 < int (length ?N)"
    using a by (simp add: normalize_nonempty)
  have 1: "chunkText text options =
      Some (filter (\<lambda>c. c \<noteq> []) (map (\<lambda>w. trim_js (slice_js ?N (fst w) (snd w))) ?ws))"
    using a chunkText_spec_chunks[where options = options]
    by (simp add: spec_chunks_def window_chunk_def[abs_def] window_slice_def)
  have 2: "?ws \<noteq> [] \<and> fst (hd ?ws) = 0 \<and> snd (last ?ws) = int (length ?N)"
    using spec_windows_last[OF L ov(2) ov(1)] by simp
  have 3: "\<forall>w \<in> set ?ws. snd w = min (fst w + ?sz) (int (length ?N))"
    using a by (auto intro: spec_windows_ends)
  have 4: "advances ?ov ?ws"
    using ov by (simp add: spec_windows_advances)
  from ov 1 2 3 4 show "let normalized = normalize text; L = int (length normalized);
           chunk_size = effective_size options; overlap = effective_overlap options;
           windows = spec_windows L chunk_size overlap 0
       in 0 \<le> overlap \<and> overlap < chunk_size
          \<and> chunkText text options =
               Some (filter (\<lambda>c. c \<noteq> []) (map (\<lambda>w. trim_js (slice_js normalized (fst w) (snd w))) windows))
          \<and> windows \<noteq> [] \<and> fst (hd windows) = 0
          \<and> (\<forall>w \<in> set windows. snd w = min (fst w + chunk_size) L)
          \<and> advances overlap windows
          \<and> snd (last windows) = L"
    by (simp add: Let_def)
qed

theorem chunkText_windowing_witness:
  "js ''hello world'' \<noteq> [] \<and> 0 < effective_size \<lparr>opt_size = Some 5, opt_overlap = Some 1\<rparr>
   \<and> chunkText (js ''hello world'') \<lparr>opt_size = Some 5, opt_overlap = Some 1\<rparr> =
        Some [js ''hello'', js ''o wor'', js ''rld'']
   \<and> spec_windows 11 5 1 0 = [(0, 5), (4, 9), (8, 11)]
   \<and> advances 1 [(0, 5), (4, 9), (8, 11)]"
proof -
  let ?T = "js ''hello world''" and ?O = "\<lparr>opt_size = Some 5, opt_overlap = Some 1\<rparr>"
  have h: "?T \<noteq> [] \<and> 0 < effective_size ?O"
    by (simp add: js_def effective_size_def)
  have n: "normalize ?T = ?T"
    by (simp add: normalize_def js_def replace_tab_def replace_nbsp_def is_space_ff_vt_def)
  have s: "effective_size ?O = 5" "effective_overlap ?O = 1" "int (length ?T) = 11"
    by (simp_all add: effective_size_def effective_overlap_def clamp_overlap_def js_def)
  have w: "spec_windows 11 5 1 0 = [(0, 5), (4, 9), (8, 11)]"
    by (simp add: spec_windows.simps)
  have t: "map (\<lambda>w. trim_js (slice_js ?T (fst w) (snd w))) [(0, 5), (4, 9), (8, 11)]
             = [js ''hello'', js ''o wor'', js ''rld'']"
    by (simp add: js_def slice_js_def trim_js_def is_js_whitespace_def)
  from chunkText_windowing[THEN conjunct1, rule_format, OF h]
  show ?thesis
    unfolding Let_def n s w t using h by (simp add: js_def)
qed

text \<open>
  C2. For every text, the empty one included, and all integer-valued sizes and overlaps,
  negative and zero ones and overlaps above the size included, \<^verbatim>\<open>chunkText\<close> returns a
  list: on the windowing path the clamps give \<open>0 \<le> overlap < size\<close>, and the loop run
  with them returns. A text has at most \<open>2 ^ 53\<close> code units, as every JavaScript string
  has.
\<close>

theorem chunkText_double_total:
  "int (length text) \<le> 2 ^ 53 \<Longrightarrow> integer_options options \<Longrightarrow>
     (\<exists>chunks. chunkText_double text options = Some chunks)
     \<and> (text \<noteq> [] \<and> 0 < double_size options \<longrightarrow>
          0 \<le> double_overlap options \<and> double_overlap options < double_size options
          \<and> (\<exists>chunks. chunk_loop_double (normalize text) (double_size options)
                         (double_overlap options) 0 [] = Some chunks))"
proof -
  assume L: "int (length text) \<le> 2 ^ 53" and i: "integer_options options"
  from i obtain ioptions where o: "options = double_options ioptions"
    by (rule integer_options_int)
  have "chunkText_double text options = chunkText text ioptions"
    using chunkText_double_int[OF L] i unfolding o by simp
  moreover have "\<exists>chunks. chunkText text ioptions = Some chunks"
  proof (cases "text \<noteq> [] \<and> 0 < effective_size ioptions")
    case True
    then show ?thesis by (simp add: chunkText_spec_chunks)
  next
    case False
    then show ?thesis by (auto simp: chunkText_def effective_size_def Let_def)
  qed
  ultimately have 1: "\<exists>chunks. chunkText_double text options = Some chunks" by simp
  have 2: "0 \<le> double_overlap options \<and> double_overlap options < double_size options
          \<and> (\<exists>chunks. chunk_loop_double (normalize text) (double_size options)
                         (double_overlap options) 0 [] = Some chunks)"
    if a: "text \<noteq> [] \<and> 0 < double_size options"
  proof -
    have p: "0 < effective_size ioptions"
      using a unfolding o double_size_int by simp
    have b: "0 \<le> effective_overlap ioptions" "effective_overlap ioptions < effective_size ioptions"
      using clamp_overlap_bounds[OF p] by (simp_all add: effective_overlap_def)
    have ov: "double_overlap (double_options ioptions) = of_int (effective_overlap ioptions)"
      using double_overlap_int[OF _ p] i unfolding o by simp
    have LN: "int (length (normalize text)) \<le> 2 ^ 53"
      using L length_normalize[of "text"] by linarith
    have "chunk_loop_double (normalize text) (of_int (effective_size ioptions))
            (of_int (effective_overlap ioptions)) (of_int 0) [] =
          Some ([] @ map (window_chunk (normalize text))
             (spec_windows (int (length (normalize text))) (effective_size ioptions)
                (effective_overlap ioptions) 0))"
      by (rule chunk_loop_double_windows[OF LN _ b]) simp
    then have "\<exists>chunks. chunk_loop_double (normalize text) (double_size options)
                         (double_overlap options) 0 [] = Some chunks"
      unfolding o ov double_size_int by simp
    moreover have "0 \<le> double_overlap options" "double_overlap options < double_size options"
      using b unfolding o ov double_size_int by simp_all
    ultimately show ?thesis by simp
  qed
  from 1 2 show ?thesis by blast
qed

theorem chunkText_double_total_witness:
  "int (length (js ''abc'')) \<le> 2 ^ 53
   \<and> integer_options \<lparr>dbl_size = Some 2, dbl_overlap = Some 7\<rparr>
   \<and> js ''abc'' \<noteq> [] \<and> 0 < double_size \<lparr>dbl_size = Some 2, dbl_overlap = Some 7\<rparr>
   \<and> double_overlap \<lparr>dbl_size = Some 2, dbl_overlap = Some 7\<rparr> = 0
   \<and> chunkText_double (js ''abc'') \<lparr>dbl_size = Some 2, dbl_overlap = Some 7\<rparr>
       = Some [js ''ab'', js ''c'']"
proof -
  let ?O = "\<lparr>dbl_size = Some 2, dbl_overlap = Some 7\<rparr>"
  have h: "\<lfloor>1 / 2 :: rat\<rfloor> = 0" by (simp add: floor_eq_iff)
  have d: "js ''abc'' \<noteq> [] \<and> 0 < double_size ?O \<and> double_overlap ?O = 0"
    by (simp add: js_def double_size_def double_overlap_def rd_eval h)
  have o: "?O = double_options \<lparr>opt_size = Some 2, opt_overlap = Some 7\<rparr>"
    by (simp add: double_options_def)
  have L: "int (length (js ''abc'')) \<le> 2 ^ 53" by (simp add: js_def)
  have i: "integer_options ?O"
    by (simp add: integer_options_def integer_double_def rd_eval)
  from chunkText_double_total[OF L i] obtain chunks
    where c: "chunkText_double (js ''abc'') ?O = Some chunks" by blast
  have "chunkText_double (js ''abc'') ?O
          = chunkText (js ''abc'') \<lparr>opt_size = Some 2, opt_overlap = Some 7\<rparr>"
    using chunkText_double_int[OF L] i unfolding o by simp
  also have "\<dots> = Some [js ''ab'', js ''c'']" by (simp add: chunk_eval)
  finally show ?thesis using L i c d by simp
qed

text \<open>
  C2, as the claim states it for every finite number, fails: with size 1 and overlap
  \<open>1 - 1 / 2 ^ 53\<close> (the literal \<^verbatim>\<open>0.9999999999999999\<close>, a double) both clamps pass
  and \<open>0 \<le> overlap < size\<close> holds, the cursor moves from 0 to \<open>1 / 2 ^ 53\<close>, and from
  there the sum \<open>start + size\<close> rounds to 1 again: the cursor stays, and the call never
  returns.
\<close>

theorem chunkText_double_total_counterexample:
  "chunkText_double (js ''ab'') \<lparr>dbl_size = Some 1, dbl_overlap = Some (1 - 1 / 2 ^ 53)\<rparr> = None
   \<and> round_double (1 - 1 / 2 ^ 53) = 1 - 1 / 2 ^ 53
   \<and> (0::rat) \<le> 1 - 1 / 2 ^ 53 \<and> (1 - 1 / 2 ^ 53 :: rat) < 1"
proof -
  let ?N = "js ''ab''"
  let ?ov = "1 - 1 / 2 ^ 53 :: rat"
  have n: "normalize ?N = ?N"
    by (simp add: normalize_def js_def replace_tab_def replace_nbsp_def is_space_ff_vt_def)
  have len: "(of_nat (length ?N) :: rat) = 2" by (simp add: js_def)
  have e0: "min (round_double (0 + 1)) (of_nat (length ?N)) = 1"
    unfolding len by (simp add: rd_eval)
  have s1: "max 0 (round_double (1 - ?ov)) = 1 / 2 ^ 53"
    by (simp add: rd_eval)
  have e1: "min (round_double (1 / 2 ^ 53 + 1)) (of_nat (length ?N)) = 1"
    unfolding len by (simp add: rd_eval)
  have "chunk_loop_double ?N 1 ?ov 0 [] =
        chunk_loop_double ?N 1 ?ov (1 / 2 ^ 53) ([] @ [trim_js (slice_js ?N (to_integer 0) (to_integer 1))])"
    by (rule chunk_loop_double_next[OF _ e0 _ s1]) (simp_all add: len)
  also have "\<dots> = None"
    by (rule chunk_loop_double_no_progress[OF _ e1 _ s1]) (simp_all add: len)
  finally have "chunk_loop_double ?N 1 ?ov 0 [] = None" .
  moreover have "?N \<noteq> []" by (simp add: js_def)
  ultimately have "chunkText_double (js ''ab'')
      \<lparr>dbl_size = Some 1, dbl_overlap = Some (1 - 1 / 2 ^ 53)\<rparr> = None"
    by (simp add: chunkText_double_def n)
  moreover have "round_double (1 - 1 / 2 ^ 53) = 1 - 1 / 2 ^ 53"
    by (simp add: rd_eval)
  moreover have "(0::rat) \<le> 1 - 1 / 2 ^ 53 \<and> (1 - 1 / 2 ^ 53 :: rat) < 1" by simp
  ultimately show ?thesis by (simp only: simp_thms)
qed

text \<open>
  C3. An overlap that is at least the size acts as \<open>size div 4\<close>, and a negative overlap
  acts as 0, on every text; so overlap 10 acts as overlap 2 for size 10, and overlap -5 as
  overlap 0.
\<close>

theorem chunkText_overlap_clamp:
  "(chunk_size \<le> overlap \<longrightarrow>
      chunkText text \<lparr>opt_size = Some chunk_size, opt_overlap = Some overlap\<rparr> =
      chunkText text \<lparr>opt_size = Some chunk_size, opt_overlap = Some (chunk_size div 4)\<rparr>)
   \<and> (overlap < 0 \<longrightarrow>
      chunkText text \<lparr>opt_size = Some chunk_size, opt_overlap = Some overlap\<rparr> =
      chunkText text \<lparr>opt_size = Some chunk_size, opt_overlap = Some 0\<rparr>)
   \<and> chunkText text \<lparr>opt_size = Some 10, opt_overlap = Some 10\<rparr> =
      chunkText text \<lparr>opt_size = Some 10, opt_overlap = Some 2\<rparr>
   \<and> chunkText text \<lparr>opt_size = Some 10, opt_overlap = Some (- 5)\<rparr> =
      chunkText text \<lparr>opt_size = Some 10, opt_overlap = Some 0\<rparr>"
  by (auto simp: chunkText_def Let_def)

theorem chunkText_overlap_clamp_witness:
  "(7::int) \<le> 9 \<and> (- 3 :: int) < 0
   \<and> chunkText (js ''abcdefghij'') \<lparr>opt_size = Some 7, opt_overlap = Some 9\<rparr> =
      chunkText (js ''abcdefghij'') \<lparr>opt_size = Some 7, opt_overlap = Some (7 div 4)\<rparr>
   \<and> chunkText (js ''abcdefghij'') \<lparr>opt_size = Some 7, opt_overlap = Some 9\<rparr> =
      Some [js ''abcdefg'', js ''ghij'']
   \<and> chunkText (js ''abcdefghij'') \<lparr>opt_size = Some 7, opt_overlap = Some (- 3)\<rparr> =
      chunkText (js ''abcdefghij'') \<lparr>opt_size = Some 7, opt_overlap = Some 0\<rparr>"
  using chunkText_overlap_clamp[of 7 9 "js ''abcdefghij''"]
        chunkText_overlap_clamp[of 7 "- 3" "js ''abcdefghij''"]
  by (simp add: chunk_eval)

text \<open>
  C4. The text that is windowed is the input after four replacements, applied once and
  in this order. Every CRLF becomes LF: the replacement splits at any CRLF, which becomes
  LF, and leaves a text without CRLF as it is. Every tab becomes a space, and every
  non-breaking space becomes a space. Every run of spaces, form feeds and vertical tabs
  becomes one space: the replacement splits at any other code unit, which stays, and
  turns a non-empty run into one space. The result has no tab, no non-breaking space, no
  form feed, no vertical tab and no two spaces in a row, and it has the line feeds of the
  input, as many and not collapsed.
\<close>

theorem chunkText_normalization:
  "(text \<noteq> [] \<and> 0 < effective_size options \<longrightarrow>
      chunkText text options =
        Some (spec_chunks (collapse_spaces (replace_nbsp (replace_tab (replace_crlf text))))
                (effective_size options) (effective_overlap options)))
   \<and> replace_crlf (xs @ CR # LF # ys) = replace_crlf xs @ LF # replace_crlf ys
   \<and> ((\<forall>xs ys. text \<noteq> xs @ CR # LF # ys) \<longrightarrow> replace_crlf text = text)
   \<and> replace_tab text = map (\<lambda>c. if c = TAB then SP else c) text
   \<and> replace_nbsp text = map (\<lambda>c. if c = NBSP then SP else c) text
   \<and> (c \<noteq> SP \<and> c \<noteq> FF \<and> c \<noteq> VT \<longrightarrow>
        collapse_spaces (xs @ c # ys) = collapse_spaces xs @ c # collapse_spaces ys)
   \<and> (r \<noteq> [] \<and> set r \<subseteq> {SP, FF, VT} \<longrightarrow> collapse_spaces r = [SP])
   \<and> collapse_spaces [] = []
   \<and> normal_form (normalize text)
   \<and> filter (\<lambda>c. c = LF) (normalize text) = filter (\<lambda>c. c = LF) text
   \<and> replace_crlf [CR, LF] = [LF] \<and> replace_tab [TAB] = [SP] \<and> replace_nbsp [NBSP] = [SP]
   \<and> collapse_spaces [SP, FF, VT, SP] = [SP] \<and> normalize [LF, LF] = [LF, LF]
   \<and> chunkText (js ''a'' @ [CR, LF] @ js ''b'' @ [TAB] @ js ''c'' @ [NBSP] @ js ''d'')
         \<lparr>opt_size = Some 1200, opt_overlap = None\<rparr> = Some [js ''a'' @ [LF] @ js ''b c d'']
   \<and> chunkText (js ''a    b'') \<lparr>opt_size = Some 1200, opt_overlap = None\<rparr> = Some [js ''a b'']"
proof (intro conjI impI)
  assume "text \<noteq> [] \<and> 0 < effective_size options"
  then show "chunkText text options =
        Some (spec_chunks (collapse_spaces (replace_nbsp (replace_tab (replace_crlf text))))
                (effective_size options) (effective_overlap options))"
    using chunkText_spec_chunks[where options = options] by (simp add: normalize_def)
next
  show "replace_crlf (xs @ CR # LF # ys) = replace_crlf xs @ LF # replace_crlf ys"
    by (rule replace_crlf_split)
next
  assume "\<forall>xs ys. text \<noteq> xs @ CR # LF # ys"
  then show "replace_crlf text = text" by (rule replace_crlf_fixed)
next
  assume "c \<noteq> SP \<and> c \<noteq> FF \<and> c \<noteq> VT"
  then show "collapse_spaces (xs @ c # ys) = collapse_spaces xs @ c # collapse_spaces ys"
    by (rule collapse_spaces_split)
next
  assume "r \<noteq> [] \<and> set r \<subseteq> {SP, FF, VT}"
  then show "collapse_spaces r = [SP]" by (rule collapse_spaces_run)
next
  show "normal_form (normalize text)" by (rule normalize_normal_form)
  show "filter (\<lambda>c. c = LF) (normalize text) = filter (\<lambda>c. c = LF) text"
    by (rule filter_lf_normalize)
  show "chunkText (js ''a'' @ [CR, LF] @ js ''b'' @ [TAB] @ js ''c'' @ [NBSP] @ js ''d'')
         \<lparr>opt_size = Some 1200, opt_overlap = None\<rparr> = Some [js ''a'' @ [LF] @ js ''b c d'']"
    by (simp add: chunk_eval)
  show "chunkText (js ''a    b'') \<lparr>opt_size = Some 1200, opt_overlap = None\<rparr> = Some [js ''a b'']"
    by (simp add: chunk_eval)
qed (simp_all add: replace_tab_def replace_nbsp_def is_space_ff_vt_def normalize_def)

theorem chunkText_normalization_witness:
  "js ''x'' @ [TAB, SP, CR, LF] @ js ''y'' \<noteq> []
   \<and> 0 < effective_size \<lparr>opt_size = Some 3, opt_overlap = Some 0\<rparr>
   \<and> collapse_spaces (replace_nbsp (replace_tab (replace_crlf (js ''x'' @ [TAB, SP, CR, LF] @ js ''y''))))
        = js ''x '' @ [LF] @ js ''y''
   \<and> chunkText (js ''x'' @ [TAB, SP, CR, LF] @ js ''y'') \<lparr>opt_size = Some 3, opt_overlap = Some 0\<rparr>
        = Some [js ''x'', js ''y'']
   \<and> \<not> has_crlf (js ''ab'') \<and> replace_crlf (js ''ab'') = js ''ab''
   \<and> collapse_spaces ([SP, SP] @ 0x61 # [FF]) = collapse_spaces [SP, SP] @ 0x61 # collapse_spaces [FF]
   \<and> collapse_spaces [SP, FF, VT] = [SP]"
proof -
  let ?T = "js ''x'' @ [TAB, SP, CR, LF] @ js ''y''"
  let ?O = "\<lparr>opt_size = Some 3, opt_overlap = Some 0\<rparr>"
  have h: "?T \<noteq> [] \<and> 0 < effective_size ?O"
    by (simp add: js_def effective_size_def)
  have n: "collapse_spaces (replace_nbsp (replace_tab (replace_crlf ?T))) = js ''x '' @ [LF] @ js ''y''"
    by (simp add: js_def replace_tab_def replace_nbsp_def is_space_ff_vt_def)
  have c: "spec_chunks (js ''x '' @ [LF] @ js ''y'') (effective_size ?O) (effective_overlap ?O)
             = [js ''x'', js ''y'']"
    by (simp add: chunk_eval)
  from chunkText_normalization[THEN conjunct1, rule_format, OF h]
  have 1: "chunkText ?T ?O = Some [js ''x'', js ''y'']"
    unfolding n c .
  have f: "\<not> has_crlf (js ''ab'')" by (simp add: js_def)
  then have "\<forall>xs ys. js ''ab'' \<noteq> xs @ CR # LF # ys"
    using has_crlf_iff[of "js ''ab''"] by blast
  with chunkText_normalization[of "js ''ab''" ?O "[SP, SP]" "[FF]" "0x61" "[SP, FF, VT]"]
  have 2: "replace_crlf (js ''ab'') = js ''ab''"
    and 3: "collapse_spaces ([SP, SP] @ 0x61 # [FF])
              = collapse_spaces [SP, SP] @ 0x61 # collapse_spaces [FF]"
    and 4: "collapse_spaces [SP, FF, VT] = [SP]"
    by simp_all
  from h n 1 f 2 3 4 show ?thesis by blast
qed

text \<open>
  C5. With a size that is not positive, a non-empty text comes back as the only chunk,
  as it is: not normalized, not trimmed, and kept even when it is white space only.
\<close>

theorem chunkText_passthrough:
  "text \<noteq> [] \<Longrightarrow> effective_size options \<le> 0 \<Longrightarrow> chunkText text options = Some [text]"
  by (simp add: chunkText_def effective_size_def Let_def)

theorem chunkText_passthrough_witness:
  "[SP, TAB, SP] \<noteq> [] \<and> effective_size \<lparr>opt_size = Some 0, opt_overlap = None\<rparr> \<le> 0
   \<and> chunkText [SP, TAB, SP] \<lparr>opt_size = Some 0, opt_overlap = None\<rparr> = Some [[SP, TAB, SP]]"
  using chunkText_passthrough[of "[SP, TAB, SP]" "\<lparr>opt_size = Some 0, opt_overlap = None\<rparr>"]
  by (simp add: effective_size_def)




text \<open>
  C7. With integer-valued options and a text of at most \<open>2 ^ 53\<close> code units, chunking
  an emitted chunk again with the same options gives one chunk: with a positive size it is the chunk with every CRLF replaced by LF,
  hence the chunk itself when it holds no CR followed by LF; with a size that is not
  positive it is the chunk itself. Replacing every CRLF is what \<open>replace_crlf\<close> does: it
  splits at any CRLF, which becomes LF, and leaves a text without CRLF as it is.
\<close>

theorem chunkText_double_rechunk:
  "int (length text) \<le> 2 ^ 53 \<Longrightarrow> integer_options options \<Longrightarrow>
   chunkText_double text options = Some chunks \<Longrightarrow> c \<in> set chunks \<Longrightarrow>
     chunkText_double c options = Some [if 0 < double_size options then replace_crlf c else c]
     \<and> ((\<forall>xs ys. c \<noteq> xs @ CR # LF # ys) \<longrightarrow> chunkText_double c options = Some [c])
     \<and> replace_crlf (xs @ CR # LF # ys) = replace_crlf xs @ LF # replace_crlf ys
     \<and> ((\<forall>xs ys. s \<noteq> xs @ CR # LF # ys) \<longrightarrow> replace_crlf s = s)"
proof -
  assume L: "int (length text) \<le> 2 ^ 53" and i: "integer_options options"
    and res: "chunkText_double text options = Some chunks" and mem: "c \<in> set chunks"
  from i obtain ioptions where o: "options = double_options ioptions"
    by (rule integer_options_int)
  have r: "chunkText text ioptions = Some chunks"
    using chunkText_double_int[OF L] i res unfolding o by simp
  have ne: "text \<noteq> []"
    using r mem by (auto simp: chunkText_def Let_def)
  have int_re: "chunkText c ioptions
          = Some [if 0 < effective_size ioptions then replace_crlf c else c]"
    and len: "length c \<le> length text"
  proof -
    show "chunkText c ioptions = Some [if 0 < effective_size ioptions then replace_crlf c else c]"
    proof (cases "0 < effective_size ioptions")
      case True
      from r chunkText_spec_chunks[OF ne True]
      have "chunks = spec_chunks (normalize text) (effective_size ioptions) (effective_overlap ioptions)"
        by simp
      with mem True show ?thesis
        using rechunk_windowing[where c = c and options = ioptions] by simp
    next
      case False
      with r mem ne show ?thesis
        by (auto simp: chunkText_def effective_size_def Let_def)
    qed
    show "length c \<le> length text"
    proof (cases "0 < effective_size ioptions")
      case True
      from r chunkText_spec_chunks[OF ne True]
      have "chunks = spec_chunks (normalize text) (effective_size ioptions) (effective_overlap ioptions)"
        by simp
      with mem have "length c \<le> length (normalize text)"
        using spec_chunks_length_text by blast
      then show ?thesis using length_normalize[of "text"] by linarith
    next
      case False
      with r mem ne show ?thesis
        by (auto simp: chunkText_def effective_size_def Let_def)
    qed
  qed
  have Lc: "int (length c) \<le> 2 ^ 53" using L len by linarith
  have "chunkText_double c options = chunkText c ioptions"
    using chunkText_double_int[OF Lc] i unfolding o by simp
  then have 1: "chunkText_double c options
      = Some [if 0 < double_size options then replace_crlf c else c]"
    using int_re unfolding o double_size_int by simp
  then have 2: "(\<forall>xs ys. c \<noteq> xs @ CR # LF # ys) \<longrightarrow> chunkText_double c options = Some [c]"
    by (simp add: replace_crlf_fixed)
  show ?thesis
    using 1 2 replace_crlf_split[of xs ys] replace_crlf_fixed[of s] by blast
qed

theorem chunkText_double_rechunk_witness:
  "int (length (js ''hello world'')) \<le> 2 ^ 53
   \<and> integer_options \<lparr>dbl_size = Some 5, dbl_overlap = Some 1\<rparr>
   \<and> chunkText_double (js ''hello world'') \<lparr>dbl_size = Some 5, dbl_overlap = Some 1\<rparr>
        = Some [js ''hello'', js ''o wor'', js ''rld'']
   \<and> js ''o wor'' \<in> set [js ''hello'', js ''o wor'', js ''rld'']
   \<and> \<not> has_crlf (js ''o wor'')
   \<and> chunkText_double (js ''o wor'') \<lparr>dbl_size = Some 5, dbl_overlap = Some 1\<rparr>
        = Some [js ''o wor'']
   \<and> replace_crlf (js ''o wor'') = js ''o wor''"
proof -
  let ?T = "js ''hello world''"
  let ?O = "\<lparr>dbl_size = Some 5, dbl_overlap = Some 1\<rparr>"
  have o: "?O = double_options \<lparr>opt_size = Some 5, opt_overlap = Some 1\<rparr>"
    by (simp add: double_options_def)
  have L: "int (length ?T) \<le> 2 ^ 53" by (simp add: js_def)
  have i: "integer_options ?O"
    by (simp add: integer_options_def integer_double_def rd_eval)
  have "chunkText_double ?T ?O = chunkText ?T \<lparr>opt_size = Some 5, opt_overlap = Some 1\<rparr>"
    using chunkText_double_int[OF L] i unfolding o by simp
  also have "\<dots> = Some [js ''hello'', js ''o wor'', js ''rld'']" by (simp add: chunk_eval)
  finally have r: "chunkText_double ?T ?O = Some [js ''hello'', js ''o wor'', js ''rld'']" .
  have m: "js ''o wor'' \<in> set [js ''hello'', js ''o wor'', js ''rld'']" by simp
  have c: "\<not> has_crlf (js ''o wor'')" by (simp add: js_def)
  then have n: "\<forall>xs ys. js ''o wor'' \<noteq> xs @ CR # LF # ys"
    using has_crlf_iff[of "js ''o wor''"] by blast
  from chunkText_double_rechunk[where s = "js ''o wor''", OF L i r m] n
  have "chunkText_double (js ''o wor'') ?O = Some [js ''o wor'']"
    and "replace_crlf (js ''o wor'') = js ''o wor''"
    by blast+
  with L i r m c show ?thesis by blast
qed

text \<open>
  C7, as the claim states it for every chunk, fails: the first replacement turns
  \<^verbatim>\<open>"\r\r\n"\<close> into \<^verbatim>\<open>"\r\n"\<close>, so a chunk can hold a CRLF, and chunking it again
  replaces that CRLF by LF.
\<close>

theorem chunkText_rechunk_counterexample:
  "chunkText (js ''a'' @ [CR, CR, LF] @ js ''b'') no_options = Some [js ''a'' @ [CR, LF] @ js ''b'']
   \<and> chunkText (js ''a'' @ [CR, LF] @ js ''b'') no_options = Some [js ''a'' @ [LF] @ js ''b'']
   \<and> js ''a'' @ [LF] @ js ''b'' \<noteq> js ''a'' @ [CR, LF] @ js ''b''
   \<and> chunkText_double (js ''a'' @ [CR, CR, LF] @ js ''b'') \<lparr>dbl_size = None, dbl_overlap = None\<rparr>
        = Some [js ''a'' @ [CR, LF] @ js ''b'']
   \<and> chunkText_double (js ''a'' @ [CR, LF] @ js ''b'') \<lparr>dbl_size = None, dbl_overlap = None\<rparr>
        = Some [js ''a'' @ [LF] @ js ''b'']"
proof -
  have o: "\<lparr>dbl_size = None, dbl_overlap = None\<rparr> = double_options no_options"
    by (simp add: double_options_def no_options_def)
  have i: "integer_options (double_options no_options)"
    by (simp add: integer_options_def double_options_def no_options_def)
  have 1: "chunkText (js ''a'' @ [CR, CR, LF] @ js ''b'') no_options
             = Some [js ''a'' @ [CR, LF] @ js ''b'']"
    and 2: "chunkText (js ''a'' @ [CR, LF] @ js ''b'') no_options
             = Some [js ''a'' @ [LF] @ js ''b'']"
    and 3: "js ''a'' @ [LF] @ js ''b'' \<noteq> js ''a'' @ [CR, LF] @ js ''b''"
    by (simp_all add: chunk_eval no_options_def)
  have L1: "int (length (js ''a'' @ [CR, CR, LF] @ js ''b'')) \<le> 2 ^ 53"
    and L2: "int (length (js ''a'' @ [CR, LF] @ js ''b'')) \<le> 2 ^ 53"
    by (simp_all add: js_def)
  show ?thesis
    unfolding o chunkText_double_int[OF L1 i] chunkText_double_int[OF L2 i]
    using 1 2 3 by simp
qed

text \<open>
  The restriction to integer-valued options is needed as well: with size 2.5 the chunk
  \<^verbatim>\<open>"cde"\<close> of \<^verbatim>\<open>"abcdefghij"\<close> is longer than the size, and chunking it again gives two
  chunks.
\<close>

lemma chunkText_double_rechunk_fraction:
  "chunkText_double (js ''cde'') \<lparr>dbl_size = Some (5 / 2), dbl_overlap = None\<rparr>
     = Some [js ''cd'', js ''e'']"
proof -
  let ?N = "js ''cde''"
  have n: "normalize ?N = ?N"
    by (simp add: normalize_def js_def replace_tab_def replace_nbsp_def is_space_ff_vt_def)
  have len: "(of_nat (length ?N) :: rat) = 3" by (simp add: js_def)
  have ov: "(of_int \<lfloor>round_double (5 / 8)\<rfloor> :: rat) = 0" by (simp add: rd_eval)
  have e0: "min (round_double (0 + 5 / 2)) (of_nat (length ?N)) = 5 / 2"
    unfolding len by (simp add: rd_eval)
  have s1: "max 0 (round_double (5 / 2 - 0)) = 5 / 2" by (simp add: rd_eval)
  have e1: "min (round_double (5 / 2 + 5 / 2)) (of_nat (length ?N)) = of_nat (length ?N)"
    unfolding len by (simp add: rd_eval)
  have "chunk_loop_double ?N (5 / 2) 0 0 [] =
        chunk_loop_double ?N (5 / 2) 0 (5 / 2)
          ([] @ [trim_js (slice_js ?N (to_integer 0) (to_integer (5 / 2)))])"
    by (rule chunk_loop_double_next[OF _ e0 _ s1]) (simp_all add: len)
  also have "\<dots> = Some
          (([] @ [trim_js (slice_js ?N (to_integer 0) (to_integer (5 / 2)))])
             @ [trim_js (slice_js ?N (to_integer (5 / 2)) (to_integer (of_nat (length ?N))))])"
    by (rule chunk_loop_double_last[OF _ e1]) (simp add: len)
  also have "\<dots> = Some [js ''cd'', js ''e'']"
    by (simp add: js_def to_integer_def slice_js_def trim_js_def is_js_whitespace_def)
  finally have loop: "chunk_loop_double ?N (5 / 2) 0 0 [] = Some [js ''cd'', js ''e'']" .
  have "?N \<noteq> []" by (simp add: js_def)
  then have "chunkText_double ?N \<lparr>dbl_size = Some (5 / 2), dbl_overlap = None\<rparr>
     = map_option (filter (\<lambda>c. c \<noteq> [])) (chunk_loop_double ?N (5 / 2) 0 0 [])"
    by (simp add: chunkText_double_def n ov)
  also have "\<dots> = Some [js ''cd'', js ''e'']"
    unfolding loop by (simp add: js_def)
  finally show ?thesis .
qed



text \<open>
  C9. With an integer-valued size that is positive (after the default of 1200), an
  integer-valued overlap and a text of at most \<open>2 ^ 53\<close> code units, no returned chunk is
  longer than the size.
\<close>

theorem chunkText_double_chunk_length:
  "int (length text) \<le> 2 ^ 53 \<Longrightarrow> integer_options options \<Longrightarrow> 0 < double_size options \<Longrightarrow>
   chunkText_double text options = Some chunks \<Longrightarrow> c \<in> set chunks \<Longrightarrow>
     of_nat (length c) \<le> double_size options"
proof -
  assume L: "int (length text) \<le> 2 ^ 53" and i: "integer_options options"
    and pos: "0 < double_size options"
    and res: "chunkText_double text options = Some chunks" and mem: "c \<in> set chunks"
  from i obtain ioptions where o: "options = double_options ioptions"
    by (rule integer_options_int)
  have r: "chunkText text ioptions = Some chunks"
    using chunkText_double_int[OF L] i res unfolding o by simp
  have p: "0 < effective_size ioptions"
    using pos unfolding o double_size_int by simp
  have ne: "text \<noteq> []"
    using r mem by (auto simp: chunkText_def Let_def)
  from r mem chunkText_spec_chunks[OF ne p]
  have "c \<in> set (spec_chunks (normalize text) (effective_size ioptions) (effective_overlap ioptions))"
    by simp
  then have "int (length c) \<le> effective_size ioptions" using p by (rule spec_chunks_length)
  then have "(of_int (int (length c)) :: rat) \<le> of_int (effective_size ioptions)"
    by (simp only: of_int_le_iff)
  then show ?thesis unfolding o double_size_int by simp
qed

theorem chunkText_double_chunk_length_witness:
  "int (length (js ''abcdefg'')) \<le> 2 ^ 53
   \<and> integer_options \<lparr>dbl_size = Some 3, dbl_overlap = Some 1\<rparr>
   \<and> 0 < double_size \<lparr>dbl_size = Some 3, dbl_overlap = Some 1\<rparr>
   \<and> chunkText_double (js ''abcdefg'') \<lparr>dbl_size = Some 3, dbl_overlap = Some 1\<rparr>
       = Some [js ''abc'', js ''cde'', js ''efg'']
   \<and> js ''cde'' \<in> set [js ''abc'', js ''cde'', js ''efg'']
   \<and> of_nat (length (js ''cde'')) \<le> double_size \<lparr>dbl_size = Some 3, dbl_overlap = Some 1\<rparr>"
proof -
  let ?T = "js ''abcdefg''"
  let ?O = "\<lparr>dbl_size = Some 3, dbl_overlap = Some 1\<rparr>"
  have o: "?O = double_options \<lparr>opt_size = Some 3, opt_overlap = Some 1\<rparr>"
    by (simp add: double_options_def)
  have L: "int (length ?T) \<le> 2 ^ 53" by (simp add: js_def)
  have i: "integer_options ?O"
    by (simp add: integer_options_def integer_double_def rd_eval)
  have p: "0 < double_size ?O" by (simp add: double_size_def)
  have "chunkText_double ?T ?O = chunkText ?T \<lparr>opt_size = Some 3, opt_overlap = Some 1\<rparr>"
    using chunkText_double_int[OF L] i unfolding o by simp
  also have "\<dots> = Some [js ''abc'', js ''cde'', js ''efg'']" by (simp add: chunk_eval)
  finally have r: "chunkText_double ?T ?O = Some [js ''abc'', js ''cde'', js ''efg'']" .
  have m: "js ''cde'' \<in> set [js ''abc'', js ''cde'', js ''efg'']" by simp
  from chunkText_double_chunk_length[OF L i p r m] L i p r m show ?thesis by blast
qed

text \<open>
  C9, as the claim states it for every size above 0, fails: with size 2.5 the overlap
  200 is clamped to \<open>\<lfloor>2.5 / 4\<rfloor> = 0\<close>, the second window is \<^verbatim>\<open>slice(2.5, 5)\<close>, and
  \<^verbatim>\<open>slice\<close> truncates its indices: the chunk has 3 code units.
\<close>

theorem chunkText_double_chunk_length_counterexample:
  "chunkText_double (js ''abcdefghij'') \<lparr>dbl_size = Some (5 / 2), dbl_overlap = None\<rparr>
     = Some [js ''ab'', js ''cde'', js ''fg'', js ''hij'']
   \<and> (5 / 2 :: rat) < of_nat (length (js ''cde''))
   \<and> round_double (5 / 2) = 5 / 2"
proof -
  have rep: "round_double (5 / 2) = 5 / 2" by (simp add: rd_eval)
  let ?N = "js ''abcdefghij''"
  have n: "normalize ?N = ?N"
    by (simp add: normalize_def js_def replace_tab_def replace_nbsp_def is_space_ff_vt_def)
  have len: "(of_nat (length ?N) :: rat) = 10" by (simp add: js_def)
  have ov: "(of_int \<lfloor>round_double (5 / 8)\<rfloor> :: rat) = 0" by (simp add: rd_eval)
  have e0: "min (round_double (0 + 5 / 2)) (of_nat (length ?N)) = 5 / 2"
    unfolding len by (simp add: rd_eval)
  have s1: "max 0 (round_double (5 / 2 - 0)) = 5 / 2" by (simp add: rd_eval)
  have e1: "min (round_double (5 / 2 + 5 / 2)) (of_nat (length ?N)) = 5"
    unfolding len by (simp add: rd_eval)
  have s2: "max 0 (round_double (5 - 0)) = 5" by (simp add: rd_eval)
  have e2: "min (round_double (5 + 5 / 2)) (of_nat (length ?N)) = 15 / 2"
    unfolding len by (simp add: rd_eval)
  have s3: "max 0 (round_double (15 / 2 - 0)) = 15 / 2" by (simp add: rd_eval)
  have e3: "min (round_double (15 / 2 + 5 / 2)) (of_nat (length ?N)) = of_nat (length ?N)"
    unfolding len by (simp add: rd_eval)
  have "chunk_loop_double ?N (5 / 2) 0 0 [] =
        chunk_loop_double ?N (5 / 2) 0 (5 / 2)
          ([] @ [trim_js (slice_js ?N (to_integer 0) (to_integer (5 / 2)))])"
    by (rule chunk_loop_double_next[OF _ e0 _ s1]) (simp_all add: len)
  also have "\<dots> = chunk_loop_double ?N (5 / 2) 0 5
          (([] @ [trim_js (slice_js ?N (to_integer 0) (to_integer (5 / 2)))])
             @ [trim_js (slice_js ?N (to_integer (5 / 2)) (to_integer 5))])"
    by (rule chunk_loop_double_next[OF _ e1 _ s2]) (simp_all add: len)
  also have "\<dots> = chunk_loop_double ?N (5 / 2) 0 (15 / 2)
          ((([] @ [trim_js (slice_js ?N (to_integer 0) (to_integer (5 / 2)))])
             @ [trim_js (slice_js ?N (to_integer (5 / 2)) (to_integer 5))])
             @ [trim_js (slice_js ?N (to_integer 5) (to_integer (15 / 2)))])"
    by (rule chunk_loop_double_next[OF _ e2 _ s3]) (simp_all add: len)
  also have "\<dots> = Some
          (((([] @ [trim_js (slice_js ?N (to_integer 0) (to_integer (5 / 2)))])
             @ [trim_js (slice_js ?N (to_integer (5 / 2)) (to_integer 5))])
             @ [trim_js (slice_js ?N (to_integer 5) (to_integer (15 / 2)))])
             @ [trim_js (slice_js ?N (to_integer (15 / 2)) (to_integer (of_nat (length ?N))))])"
    by (rule chunk_loop_double_last[OF _ e3]) (simp add: len)
  also have "\<dots> = Some [js ''ab'', js ''cde'', js ''fg'', js ''hij'']"
    by (simp add: js_def to_integer_def slice_js_def trim_js_def is_js_whitespace_def)
  finally have loop: "chunk_loop_double ?N (5 / 2) 0 0 [] =
      Some [js ''ab'', js ''cde'', js ''fg'', js ''hij'']" .
  have "?N \<noteq> []" by (simp add: js_def)
  then have "chunkText_double ?N \<lparr>dbl_size = Some (5 / 2), dbl_overlap = None\<rparr>
     = map_option (filter (\<lambda>c. c \<noteq> [])) (chunk_loop_double ?N (5 / 2) 0 0 [])"
    by (simp add: chunkText_double_def n ov)
  also have "\<dots> = Some [js ''ab'', js ''cde'', js ''fg'', js ''hij'']"
    unfolding loop by (simp add: js_def)
  finally show ?thesis using rep by (simp add: js_def)
qed


text \<open>bridge\<close>

text \<open>
  C10. An empty text, the only falsy value of type \<^verbatim>\<open>string\<close>, gives the empty list
  whatever the options are, also when the size is not positive: the test for the empty
  text comes first.
\<close>

theorem chunkText_empty_text:
  "chunkText [] options = Some []"
  by (simp add: chunkText_def)

end
